theory Spec2Isabelle
  imports Main "HOL-Library.Word" "HOL-Library.Signed_Division"
begin

unbundle bit_operations_syntax

section \<open>The connection slab\<close>

text \<open>
  The per-connection state is \<^verbatim>\<open>lwan_request_t\<close>. Its declaration (lwan.h) is not
  among the sources; the record holds every member that lwan.c names, and
  \<open>other_members\<close> stands for the bytes of the members lwan.c never names: all that
  lwan.c does to them is the \<^verbatim>\<open>memset\<close> of \<^verbatim>\<open>_reset_request\<close>.

  Pointers are addresses (\<open>nat option\<close>, \<open>None\<close> for \<^verbatim>\<open>NULL\<close>). The base of the
  query-string array is \<^verbatim>\<open>NULL\<close>, the address of the static array
  \<^verbatim>\<open>empty_query_string_kv\<close>, or a block from malloc.
\<close>

datatype kv_base = Kv_null | Kv_empty_sentinel | Kv_heap nat

record request =
  fd :: nat
  lwan :: "nat option"
  coro :: "nat option"
  response_buffer :: "nat option"
  query_string_kv_base :: kv_base
  alive :: bool
  should_resume_coro :: bool
  write_events :: bool
  is_keep_alive :: bool
  time_to_die :: "32 word"
  other_members :: "8 word list"

datatype ctl_op = EPOLL_CTL_ADD | EPOLL_CTL_MOD

text \<open>
  Calls that leave lwan.c are logged in the order they are made: the worker's and the
  acceptor's effects on the kernel and on the allocator are read off this log.
\<close>

datatype call =
    Coro_new nat
  | Coro_resume nat
  | Coro_free nat
  | Close nat
  | Epoll_ctl nat ctl_op nat "32 word"
  | Free kv_base
  | Strbuf_new nat
  | Strbuf_reset "nat option"
  | Strbuf_free "nat option"
  | Perror string

text \<open>
  The heap: the strbuf objects (their bytes), the live coroutine objects (the flag says
  whether the entry function has been entered), the next fresh address and the log.
\<close>

record heap =
  strbufs :: "nat \<rightharpoonup> string"
  coros :: "nat \<rightharpoonup> bool"
  next_addr :: nat
  calls :: "call list"

definition log_call :: "call \<Rightarrow> heap \<Rightarrow> heap" where
  "log_call c h = h\<lparr>calls := calls h @ [c]\<rparr>"

text \<open>
  Modelled from the spec: \<^verbatim>\<open>strbuf_reset\<close> (strbuf.c is not among the sources) resets
  the length of the buffer to 0 and keeps the object. On a pointer that is not a live
  buffer nothing is known; the model logs the call and leaves the heap as it is.
\<close>

definition strbuf_reset :: "nat option \<Rightarrow> heap \<Rightarrow> heap" where
  "strbuf_reset p h =
     log_call (Strbuf_reset p)
       (case p of
          None \<Rightarrow> h
        | Some b \<Rightarrow> (case strbufs h b of
                       None \<Rightarrow> h
                     | Some s \<Rightarrow> h\<lparr>strbufs := (strbufs h)(b \<mapsto> [])\<rparr>))"

definition strbuf_length :: "heap \<Rightarrow> nat option \<Rightarrow> nat option" where
  "strbuf_length h p =
     (case p of None \<Rightarrow> None | Some b \<Rightarrow> map_option length (strbufs h b))"

text \<open>\<^verbatim>\<open>memset(request, 0, sizeof(*request))\<close>: every member is all-bits-zero.\<close>

definition memset_zero :: "request \<Rightarrow> request" where
  "memset_zero request =
     \<lparr>fd = 0, lwan = None, coro = None, response_buffer = None,
      query_string_kv_base = Kv_null, alive = False, should_resume_coro = False,
      write_events = False, is_keep_alive = False, time_to_die = 0,
      other_members = replicate (length (other_members request)) 0\<rparr>"

text \<open>A slot of the slab as \<^verbatim>\<open>calloc\<close> returns it (no unnamed member is modelled).\<close>

definition zero_request :: request where
  "zero_request =
     \<lparr>fd = 0, lwan = None, coro = None, response_buffer = None,
      query_string_kv_base = Kv_null, alive = False, should_resume_coro = False,
      write_events = False, is_keep_alive = False, time_to_die = 0, other_members = []\<rparr>"

text \<open>
  \<^verbatim>\<open>_reset_request\<close> (lwan.c): save four members, free the query-string array unless it
  is the static sentinel, zero the structure, restore the four members, bind the
  query-string array to the sentinel and reset the response buffer.
\<close>

definition reset_request :: "request \<Rightarrow> heap \<Rightarrow> request \<times> heap" where
  "reset_request request h =
     (let saved_buffer = response_buffer request;
          saved_lwan = lwan request;
          saved_coro = coro request;
          saved_fd = fd request;
          h1 = (if query_string_kv_base request \<noteq> Kv_empty_sentinel
                then log_call (Free (query_string_kv_base request)) h else h);
          request1 = memset_zero request;
          request2 = request1\<lparr>fd := saved_fd, lwan := saved_lwan, coro := saved_coro,
                       response_buffer := saved_buffer,
                       query_string_kv_base := Kv_empty_sentinel\<rparr>
      in (request2, strbuf_reset (response_buffer request2) h1))"

section \<open>The coroutine runtime and the per-request coroutine\<close>

text \<open>Event bits of \<^verbatim>\<open>sys/epoll.h\<close> (Linux).\<close>

abbreviation (input) EPOLLIN :: "32 word" where "EPOLLIN \<equiv> 0x001"
abbreviation (input) EPOLLOUT :: "32 word" where "EPOLLOUT \<equiv> 0x004"
abbreviation (input) EPOLLERR :: "32 word" where "EPOLLERR \<equiv> 0x008"
abbreviation (input) EPOLLHUP :: "32 word" where "EPOLLHUP \<equiv> 0x010"
abbreviation (input) EPOLLRDHUP :: "32 word" where "EPOLLRDHUP \<equiv> 0x2000"
abbreviation (input) EPOLLET :: "32 word" where "EPOLLET \<equiv> 0x80000000"

text \<open>
  Modelled from the spec: \<^verbatim>\<open>coro_new\<close> and \<^verbatim>\<open>coro_free\<close> (coro.c is not among the
  sources). \<^verbatim>\<open>coro_new\<close> allocates a coroutine primed to call its entry on the first
  resume, or returns \<^verbatim>\<open>NULL\<close> when the allocation fails (\<open>ok = False\<close>);
  \<^verbatim>\<open>coro_free\<close> releases it.
\<close>

definition coro_new :: "bool \<Rightarrow> heap \<Rightarrow> nat option \<times> heap" where
  "coro_new ok h =
     (if ok
      then (Some (next_addr h),
            log_call (Coro_new (next_addr h))
              (h\<lparr>coros := (coros h)(next_addr h \<mapsto> False), next_addr := Suc (next_addr h)\<rparr>))
      else (None, h))"

definition coro_free :: "nat \<Rightarrow> heap \<Rightarrow> heap" where
  "coro_free c h = log_call (Coro_free c) (h\<lparr>coros := (coros h)(c := None)\<rparr>)"

text \<open>
  What one resume of the request coroutine meets outside lwan.c: whether
  \<^verbatim>\<open>lwan_process_request\<close> yields (\<^verbatim>\<open>coro_resume\<close> returns true) or returns, and the
  value it leaves in \<open>is_keep_alive\<close>. Of the connection state the worker loop reads
  nothing else that \<^verbatim>\<open>lwan_process_request\<close> writes.
\<close>

record outcome =
  yields :: bool
  keep_alive :: bool

text \<open>
  \<^verbatim>\<open>coro_resume\<close> on the coroutine of a connection. The coroutine's data is the slab
  slot it was created for. On the first resume the entry \<^verbatim>\<open>_process_request_coro\<close>
  (lwan.c) runs: \<^verbatim>\<open>_reset_request\<close>, then \<^verbatim>\<open>lwan_process_request\<close>; a later resume
  continues inside \<^verbatim>\<open>lwan_process_request\<close>. Resuming an address that is not a live
  coroutine does not happen in lwan.c (the slot's pointer is cleared when the coroutine
  is freed); the model leaves the state as it is there.
\<close>

definition coro_resume :: "outcome \<Rightarrow> nat \<Rightarrow> request \<Rightarrow> heap \<Rightarrow> bool \<times> request \<times> heap" where
  "coro_resume out c request h =
     (case coros h c of
        None \<Rightarrow> (False, request, h)
      | Some started \<Rightarrow>
          (let h0 = log_call (Coro_resume c) (h\<lparr>coros := (coros h)(c \<mapsto> True)\<rparr>);
               (request1, h1) = (if started then (request, h0) else reset_request request h0)
           in (yields out, request1\<lparr>is_keep_alive := keep_alive out\<rparr>, h1)))"

section \<open>The worker thread\<close>

text \<open>
  One readiness event as the worker receives it from \<^verbatim>\<open>epoll_wait\<close>, with what the
  handling of that event meets outside lwan.c: whether \<^verbatim>\<open>coro_new\<close> succeeds, the
  outcome of the resume, and whether \<^verbatim>\<open>epoll_ctl\<close> fails.
\<close>

record activity =
  ev_events :: "32 word"
  ev_fd :: nat
  ev_coro_new_ok :: bool
  ev_outcome :: outcome
  ev_ctl_fails :: bool

text \<open>
  The state of \<^verbatim>\<open>_thread\<close>: its locals, the slab it shares
  (\<^verbatim>\<open>t->lwan->requests\<close>), the two configuration values it reads
  (\<^verbatim>\<open>t->lwan->thread.max_fd\<close>, \<^verbatim>\<open>t->lwan->config.keep_alive_timeout\<close>) and the heap.
  \<open>death_time\<close> is \<^verbatim>\<open>unsigned int\<close>; \<open>time_to_die\<close> and the timeout are taken as
  \<^verbatim>\<open>unsigned int\<close> too. The descriptors the kernel hands out index the slab in range,
  and \<open>max_fd\<close> is positive: the model says nothing about the reads out of range and
  the division by zero that C would make otherwise.
\<close>

record thread =
  epoll_fd :: nat
  max_fd :: nat
  keep_alive_timeout :: "32 word"
  requests :: "request list"
  death_queue :: "nat list"
  death_queue_first :: nat
  death_queue_last :: nat
  death_queue_population :: nat
  death_time :: "32 word"
  mem :: heap

definition handle_hangup :: "request \<Rightarrow> heap \<Rightarrow> request \<times> heap" where
  "handle_hangup request h = (request\<lparr>alive := False\<rparr>, log_call (Close (fd request)) h)"

definition cleanup_coro :: "request \<Rightarrow> heap \<Rightarrow> request \<times> heap" where
  "cleanup_coro request h =
     (case coro request of
        None \<Rightarrow> (request, h)
      | Some c \<Rightarrow>
          if should_resume_coro request then (request, h)
          else (request\<lparr>coro := None\<rparr>, coro_free c h))"

definition spawn_coro_if_needed :: "bool \<Rightarrow> request \<Rightarrow> heap \<Rightarrow> request \<times> heap" where
  "spawn_coro_if_needed ok request h =
     (case coro request of
        Some c \<Rightarrow> (request, h)
      | None \<Rightarrow>
          (let (c, h1) = coro_new ok h
           in (request\<lparr>coro := c, should_resume_coro := True, write_events := False\<rparr>, h1)))"

definition events_by_write_flag :: "32 word list" where
  "events_by_write_flag =
     [EPOLLOUT OR EPOLLRDHUP OR EPOLLERR,
      EPOLLIN OR EPOLLRDHUP OR EPOLLERR OR EPOLLET]"

definition resume_coro_if_needed ::
  "outcome \<Rightarrow> bool \<Rightarrow> nat \<Rightarrow> request \<Rightarrow> heap \<Rightarrow> request \<times> heap" where
  "resume_coro_if_needed out ctl_fails epfd request h =
     (case coro request of
        None \<Rightarrow> (request, h)
      | Some c \<Rightarrow>
          if \<not> should_resume_coro request then (request, h)
          else
            (let (r, request1, h1) = coro_resume out c request h;
                 request2 = request1\<lparr>should_resume_coro := r\<rparr>
             in if should_resume_coro request2 = write_events request2 then (request2, h1)
                else
                  (let mask = events_by_write_flag ! (if write_events request2 then 1 else 0);
                       h2 = log_call (Epoll_ctl epfd EPOLL_CTL_MOD (fd request2) mask) h1;
                       h3 = (if ctl_fails then log_call (Perror ''epoll_ctl'') h2 else h2)
                   in (request2\<lparr>write_events := \<not> write_events request2\<rparr>, h3))))"

text \<open>The body of the \<^verbatim>\<open>for\<close> loop over the ready events (the \<^verbatim>\<open>default\<close> case).\<close>

definition dispatch :: "thread \<Rightarrow> activity \<Rightarrow> thread" where
  "dispatch t ev =
     (let n = ev_fd ev;
          request = (requests t ! n)\<lparr>fd := n\<rparr>
      in if ev_events ev AND (EPOLLRDHUP OR EPOLLHUP) \<noteq> 0
         then (let (request1, h1) = handle_hangup request (mem t)
               in t\<lparr>requests := (requests t)[n := request1], mem := h1\<rparr>)
         else
           (let (request1, h1) = cleanup_coro request (mem t);
                (request2, h2) = spawn_coro_if_needed (ev_coro_new_ok ev) request1 h1;
                (request3, h3) =
                  resume_coro_if_needed (ev_outcome ev) (ev_ctl_fails ev) (epoll_fd t) request2 h2;
                request4 = request3\<lparr>time_to_die :=
                  (if is_keep_alive request3 \<or> should_resume_coro request3
                   then death_time t + keep_alive_timeout t else death_time t)\<rparr>
            in if \<not> alive request4
               then t\<lparr>requests := (requests t)[n := request4\<lparr>alive := True\<rparr>],
                      death_queue := (death_queue t)[death_queue_last t := n],
                      death_queue_last := Suc (death_queue_last t) mod max_fd t,
                      death_queue_population := Suc (death_queue_population t),
                      mem := h3\<rparr>
               else t\<lparr>requests := (requests t)[n := request4], mem := h3\<rparr>))"

text \<open>
  One turn of the \<^verbatim>\<open>while (death_queue_population)\<close> loop of the timeout case:
  \<open>None\<close> when the loop ends (the queue is empty, or its head is not due).
\<close>

definition reap_step :: "thread \<Rightarrow> thread option" where
  "reap_step t =
     (if death_queue_population t = 0 then None
      else
        (let n = death_queue t ! death_queue_first t;
             request = requests t ! n
         in if time_to_die request \<le> death_time t
            then
              (let t1 = t\<lparr>death_queue_first := Suc (death_queue_first t) mod max_fd t,
                           death_queue_population := death_queue_population t - 1\<rparr>
               in if \<not> alive request then Some t1
                  else
                    (let (request1, h1) = cleanup_coro request (mem t1)
                     in Some (t1\<lparr>requests := (requests t1)[n := request1\<lparr>alive := False\<rparr>],
                                  mem := log_call (Close (fd request1)) h1\<rparr>)))
            else None))"

lemma reap_step_population:
  "reap_step t = Some t' \<Longrightarrow> death_queue_population t' < death_queue_population t"
  by (auto simp: reap_step_def Let_def split: if_splits prod.splits)

function reap :: "thread \<Rightarrow> thread" where
  "reap t = (case reap_step t of None \<Rightarrow> t | Some t' \<Rightarrow> reap t')"
  by pat_completeness auto
termination
  by (relation "measure death_queue_population") (auto simp: reap_step_population)

text \<open>
  What \<^verbatim>\<open>epoll_wait\<close> returns to the worker: -1 with an errno, or the ready events (none
  of them: the return value 0, the timeout).
\<close>

datatype errno = EBADF | EINVAL | EINTR

datatype wait_result = Wait_failed errno | Wait_ready "activity list"

text \<open>
  One turn of the \<^verbatim>\<open>for (;;)\<close> loop of \<^verbatim>\<open>_thread\<close>: \<open>Inl\<close> when the thread leaves the
  loop (\<^verbatim>\<open>epoll_fd_closed\<close>), \<open>Inr\<close> when it goes round again.
\<close>

definition thread_turn :: "thread \<Rightarrow> wait_result \<Rightarrow> thread + thread" where
  "thread_turn t res =
     (case res of
        Wait_failed e \<Rightarrow> (if e = EBADF \<or> e = EINVAL then Inl t else Inr t)
      | Wait_ready [] \<Rightarrow> Inr (reap (t\<lparr>death_time := death_time t + 1\<rparr>))
      | Wait_ready evs \<Rightarrow> Inr (foldl dispatch t evs))"

text \<open>
  The acceptor thread enrolls an accepted descriptor into a worker's epoll set
  (\<^verbatim>\<open>_push_request_fd\<close>); that call is the only thing another thread does to a worker.
\<close>

abbreviation (input) push_events :: "32 word" where
  "push_events \<equiv> EPOLLIN OR EPOLLRDHUP OR EPOLLERR OR EPOLLET"

datatype worker_input = Push nat | Wait wait_result

text \<open>
  A run of one worker from the start of \<^verbatim>\<open>_thread\<close>: the acceptor's enrollments and the
  returns of \<^verbatim>\<open>epoll_wait\<close>, in the order they happen. The run ends when the thread
  leaves its loop.
\<close>

fun thread_run :: "thread \<Rightarrow> worker_input list \<Rightarrow> thread" where
  "thread_run t [] = t"
| "thread_run t (Push n # steps) =
     thread_run (t\<lparr>mem := log_call (Epoll_ctl (epoll_fd t) EPOLL_CTL_ADD n push_events) (mem t)\<rparr>) steps"
| "thread_run t (Wait res # steps) =
     (case thread_turn t res of Inl t' \<Rightarrow> t' | Inr t' \<Rightarrow> thread_run t' steps)"

text \<open>The locals of \<^verbatim>\<open>_thread\<close> as it enters its loop.\<close>

definition thread_start :: "nat \<Rightarrow> nat \<Rightarrow> 32 word \<Rightarrow> request list \<Rightarrow> heap \<Rightarrow> thread" where
  "thread_start epfd m timeout slab h =
     \<lparr>epoll_fd = epfd, max_fd = m, keep_alive_timeout = timeout, requests = slab,
      death_queue = replicate m 0, death_queue_first = 0, death_queue_last = 0,
      death_queue_population = 0, death_time = 0, mem = h\<rparr>"

section \<open>Initialisation of the slab\<close>

text \<open>
  Modelled from the spec: \<^verbatim>\<open>strbuf_new\<close> (strbuf.c is not among the sources) allocates
  a fresh, empty buffer.
\<close>

definition strbuf_new :: "heap \<Rightarrow> nat option \<times> heap" where
  "strbuf_new h =
     (Some (next_addr h),
      log_call (Strbuf_new (next_addr h))
        (h\<lparr>strbufs := (strbufs h)(next_addr h \<mapsto> []), next_addr := Suc (next_addr h)\<rparr>))"

text \<open>
  \<^verbatim>\<open>struct rlimit\<close>: both members are \<^verbatim>\<open>rlim_t\<close>, an unsigned 64-bit integer;
  \<^verbatim>\<open>RLIM_INFINITY\<close> is its greatest value.
\<close>

record rlimit =
  rlim_cur :: "64 word"
  rlim_max :: "64 word"

abbreviation (input) RLIM_INFINITY :: "64 word" where "RLIM_INFINITY \<equiv> - 1"

text \<open>The part of \<^verbatim>\<open>lwan_t\<close> that \<^verbatim>\<open>lwan_init\<close> fills before it opens the socket.\<close>

record lwan_t =
  lwan_requests :: "request list"
  thread_count :: nat
  thread_max_fd :: nat
  lwan_mem :: heap

datatype 'a exits = Exit int heap | Wild_write | Done 'a

text \<open>
  The loop \<^verbatim>\<open>for (--r.rlim_cur; r.rlim_cur; --r.rlim_cur)\<close> of \<^verbatim>\<open>lwan_init\<close>, entered
  with the index already decremented: it runs the body at \<open>n\<close>, \<open>n - 1\<close>, ... and
  stops when the index is 0.
\<close>

fun init_slots :: "nat \<Rightarrow> nat \<Rightarrow> request list \<Rightarrow> heap \<Rightarrow> request list \<times> heap" where
  "init_slots self 0 slab h = (slab, h)"
| "init_slots self (Suc n) slab h =
     (let (b, h1) = strbuf_new h
      in init_slots self n
           (slab[Suc n := (slab ! Suc n)\<lparr>response_buffer := b, lwan := Some self\<rparr>]) h1)"

text \<open>
  \<^verbatim>\<open>lwan_init\<close> up to the end of that loop. \<open>self\<close> is the address of the \<^verbatim>\<open>lwan_t\<close>,
  \<open>nprocs\<close> the value of \<^verbatim>\<open>sysconf(_SC_NPROCESSORS_ONLN)\<close>, \<open>lim\<close> what
  \<^verbatim>\<open>getrlimit\<close> stores (\<open>None\<close> when it fails) and \<open>set_ok\<close> whether \<^verbatim>\<open>setrlimit\<close>
  succeeds. \<^verbatim>\<open>calloc\<close> gives \<open>rlim_cur\<close> zeroed slots. With a limit of 0 the decrement
  wraps and the loop writes outside the slab (\<open>Wild_write\<close>). The rest of
  \<^verbatim>\<open>lwan_init\<close> (signals, the listening socket, the threads) does not touch the slab.
\<close>

definition lwan_init :: "nat \<Rightarrow> int \<Rightarrow> rlimit option \<Rightarrow> bool \<Rightarrow> heap \<Rightarrow> lwan_t exits" where
  "lwan_init self nprocs lim set_ok h =
     (let count = (if nprocs > 0 then nat nprocs else 2)
      in case lim of
           None \<Rightarrow> Exit (- 1) (log_call (Perror ''getrlimit'') h)
         | Some r \<Rightarrow>
             (let cur = (if rlim_max r = RLIM_INFINITY then rlim_cur r * 8
                         else if rlim_cur r < rlim_max r then rlim_max r
                         else rlim_cur r)
              in if \<not> set_ok then Exit (- 1) (log_call (Perror ''setrlimit'') h)
                 else if cur = 0 then Wild_write
                 else
                   (let slab = replicate (unat cur) zero_request;
                        (slab1, h1) = init_slots self (unat (cur - 1)) slab h
                    in Done \<lparr>lwan_requests = slab1, thread_count = count,
                             thread_max_fd = unat cur div count, lwan_mem = h1\<rparr>)))"

section \<open>The acceptor\<close>

text \<open>
  What the acceptor uses of \<^verbatim>\<open>lwan_t\<close>: the epoll descriptors of the worker threads
  (\<^verbatim>\<open>l->thread.threads[i].epoll_fd\<close>; \<^verbatim>\<open>l->thread.count\<close> is their number), the
  \<^verbatim>\<open>static int counter\<close> of \<^verbatim>\<open>_push_request_fd\<close>, and the log of its calls.
\<close>

record acceptor =
  threads :: "nat list"
  counter :: "32 word"
  acc_calls :: "call list"

datatype accepting = Exited int acceptor | Out_of_bounds | Accepting acceptor

text \<open>
  \<^verbatim>\<open>_push_request_fd\<close>. The index is \<^verbatim>\<open>counter++ % l->thread.count\<close> on \<^verbatim>\<open>int\<close>: the
  remainder truncates towards zero (\<open>smod\<close>; lwan.c prints the count with
  \<^verbatim>\<open>%d\<close> and counts down from it in an \<^verbatim>\<open>int\<close>), and the increment is written as the
  two's complement wrap-around that the machine gives (C itself leaves the overflow of
  an \<^verbatim>\<open>int\<close> undefined). An index outside the array of threads is a read out of bounds.
  \<open>ctl_ok\<close> says whether \<^verbatim>\<open>epoll_ctl\<close> succeeds; when it fails the process exits.
\<close>

definition push_request_fd :: "acceptor \<Rightarrow> nat \<Rightarrow> bool \<Rightarrow> accepting" where
  "push_request_fd l n ctl_ok =
     (let i = sint (counter l) smod int (length (threads l));
          l1 = l\<lparr>counter := counter l + 1\<rparr>
      in if i < 0 \<or> int (length (threads l)) \<le> i then Out_of_bounds
         else
           (let l2 = l1\<lparr>acc_calls := acc_calls l1 @
                        [Epoll_ctl (threads l ! nat i) EPOLL_CTL_ADD n push_events]\<rparr>
            in if ctl_ok then Accepting l2
               else Exited (- 1) (l2\<lparr>acc_calls := acc_calls l2 @ [Perror ''epoll_ctl'']\<rparr>)))"

text \<open>
  An event of the root epoll set as \<^verbatim>\<open>lwan_main_loop\<close> handles it: the listening
  socket is ready (\<^verbatim>\<open>data.u32 = 0\<close>) and \<^verbatim>\<open>accept4\<close> fails or returns a descriptor
  (with the fate of the enrollment that follows), or the directory watch is ready.
\<close>

datatype accept_result = Accept_failed | Accepted nat bool

datatype root_event = Listen accept_result | Dir_watch

text \<open>
  The inner \<^verbatim>\<open>for\<close> loop of \<^verbatim>\<open>lwan_main_loop\<close> over the events of one
  \<^verbatim>\<open>epoll_wait\<close>, given in the order the loop takes them (from \<^verbatim>\<open>events[n_fds - 1]\<close>
  down). \<^verbatim>\<open>lwan_dir_watch_process_events\<close> is in another file and touches nothing
  modelled here.
\<close>

fun main_loop_events :: "acceptor \<Rightarrow> root_event list \<Rightarrow> accepting" where
  "main_loop_events l [] = Accepting l"
| "main_loop_events l (Listen Accept_failed # evs) =
     main_loop_events (l\<lparr>acc_calls := acc_calls l @ [Perror ''accept'']\<rparr>) evs"
| "main_loop_events l (Listen (Accepted n ctl_ok) # evs) =
     (case push_request_fd l n ctl_ok of
        Accepting l' \<Rightarrow> main_loop_events l' evs
      | Exited code l' \<Rightarrow> Exited code l'
      | Out_of_bounds \<Rightarrow> Out_of_bounds)"
| "main_loop_events l (Dir_watch # evs) = main_loop_events l evs"

text \<open>
  The outer \<^verbatim>\<open>for (;;)\<close> loop over the returns of \<^verbatim>\<open>epoll_wait\<close>, each the array of
  events it filled (empty when it returns 0 or -1), as far as the input goes. What
  \<^verbatim>\<open>lwan_main_loop\<close> does before the loop (the root epoll set, the handler of
  \<^verbatim>\<open>SIGINT\<close>) and the jump out of the loop on \<^verbatim>\<open>SIGINT\<close> are left out: they are not on
  the path of a connection.
\<close>

fun main_loop :: "acceptor \<Rightarrow> root_event list list \<Rightarrow> accepting" where
  "main_loop l [] = Accepting l"
| "main_loop l (events # rest) =
     (case main_loop_events l (rev events) of
        Accepting l' \<Rightarrow> main_loop l' rest
      | Exited code l' \<Rightarrow> Exited code l'
      | Out_of_bounds \<Rightarrow> Out_of_bounds)"

text \<open>Connections that are all accepted and enrolled without an error.\<close>

definition accepts :: "nat list \<Rightarrow> root_event list" where
  "accepts fds = map (\<lambda>n. Listen (Accepted n True)) fds"

definition enroll_fails :: "root_event \<Rightarrow> bool" where
  "enroll_fails ev = (case ev of Listen (Accepted n ctl_ok) \<Rightarrow> \<not> ctl_ok | _ \<Rightarrow> False)"

definition accept_fails :: "root_event \<Rightarrow> bool" where
  "accept_fails ev = (case ev of Listen Accept_failed \<Rightarrow> True | _ \<Rightarrow> False)"

definition accepted :: "root_event \<Rightarrow> bool" where
  "accepted ev = (case ev of Listen (Accepted n ctl_ok) \<Rightarrow> True | _ \<Rightarrow> False)"

section \<open>The URL map\<close>

text \<open>
  \<^verbatim>\<open>lwan_handler_t\<close> and \<^verbatim>\<open>lwan_url_map_t\<close> are declared in lwan.h, which is not among
  the sources; the records hold the members that lwan.c names. A handler's \<open>init\<close> is
  the function from the entry's \<open>args\<close> to the handler's state (\<open>None\<close> when the
  pointer is \<^verbatim>\<open>NULL\<close>); of \<open>shutdown\<close> only its presence matters, the call is logged.
  The table ends at the first entry whose prefix is \<^verbatim>\<open>NULL\<close>: it is the list of the
  entries before that one.
\<close>

record handler =
  handler_name :: string
  init :: "(nat option \<Rightarrow> nat option) option"
  has_shutdown :: bool
  handle :: nat
  handler_flags :: nat

record url_map_entry =
  url_prefix :: string
  prefix_len :: nat
  handler :: "handler option"
  data :: "nat option"
  args :: "nat option"
  callback :: "nat option"
  flags :: nat

datatype router_call =
    Trie_destroy
  | Trie_new
  | Trie_add string
  | Handler_init string "nat option"
  | Handler_shutdown string "nat option"
  | Router_perror string

text \<open>
  The part of \<^verbatim>\<open>lwan_t\<close> that the router uses: \<^verbatim>\<open>l->url_map\<close> (\<open>None\<close> when
  \<^verbatim>\<open>NULL\<close>) and the log of the calls to the trie (lwan-trie.c is not among the
  sources) and to the handlers.
\<close>

record router =
  url_map :: "url_map_entry list option"
  router_calls :: "router_call list"

definition shutdown_entry :: "url_map_entry \<Rightarrow> router_call list" where
  "shutdown_entry e =
     (case handler e of
        None \<Rightarrow> []
      | Some h \<Rightarrow> if has_shutdown h then [Handler_shutdown (handler_name h) (data e)] else [])"

text \<open>\<^verbatim>\<open>_url_map_free\<close>.\<close>

definition url_map_free :: "router \<Rightarrow> router" where
  "url_map_free l =
     (case url_map l of
        None \<Rightarrow> l
      | Some table \<Rightarrow>
          l\<lparr>router_calls := router_calls l @ [Trie_destroy] @ concat (map shutdown_entry table)\<rparr>)"

text \<open>
  The body of the loop of \<^verbatim>\<open>lwan_set_url_map\<close> on one entry: the entry as the loop
  leaves it, and the calls made. \<open>parse_mask\<close> is \<^verbatim>\<open>HANDLER_PARSE_MASK\<close> (lwan.h).
\<close>

definition register_entry :: "nat \<Rightarrow> url_map_entry \<Rightarrow> url_map_entry \<times> router_call list" where
  "register_entry parse_mask e =
     (let e1 = e\<lparr>prefix_len := length (url_prefix e)\<rparr>
      in case handler e of
           None \<Rightarrow> (e1\<lparr>flags := parse_mask\<rparr>, [Trie_add (url_prefix e)])
         | Some h \<Rightarrow>
             (case init h of
                None \<Rightarrow> (e1\<lparr>flags := parse_mask\<rparr>, [Trie_add (url_prefix e)])
              | Some f \<Rightarrow>
                  (e1\<lparr>data := f (args e), callback := Some (handle h), flags := handler_flags h\<rparr>,
                   [Trie_add (url_prefix e), Handler_init (handler_name h) (args e)])))"

datatype registering = Register_exit int router | Registered router

text \<open>
  \<^verbatim>\<open>lwan_set_url_map\<close>. \<open>trie_ok\<close> says whether \<^verbatim>\<open>lwan_trie_new\<close> returns a trie.
  The loop writes into the caller's table, which \<^verbatim>\<open>l->url_map\<close> points to: the
  router holds the entries as the loop leaves them.
\<close>

definition lwan_set_url_map :: "nat \<Rightarrow> bool \<Rightarrow> router \<Rightarrow> url_map_entry list \<Rightarrow> registering" where
  "lwan_set_url_map parse_mask trie_ok l table =
     (let l1 = url_map_free l;
          l2 = l1\<lparr>url_map := Some table, router_calls := router_calls l1 @ [Trie_new]\<rparr>
      in if \<not> trie_ok
         then Register_exit (- 1)
                (l2\<lparr>router_calls := router_calls l2 @ [Router_perror ''lwan_trie_new'']\<rparr>)
         else Registered
                (l2\<lparr>url_map := Some (map (\<lambda>e. fst (register_entry parse_mask e)) table),
                    router_calls := router_calls l2 @
                      concat (map (\<lambda>e. snd (register_entry parse_mask e)) table)\<rparr>))"

definition is_init :: "router_call \<Rightarrow> bool" where
  "is_init c = (case c of Handler_init n a \<Rightarrow> True | _ \<Rightarrow> False)"

definition is_shutdown :: "router_call \<Rightarrow> bool" where
  "is_shutdown c = (case c of Handler_shutdown n d \<Rightarrow> True | _ \<Rightarrow> False)"

text \<open>Whether an entry has a handler with a \<open>shutdown\<close>, and with an \<open>init\<close>.\<close>

definition tears_down :: "url_map_entry \<Rightarrow> bool" where
  "tears_down e = (case handler e of None \<Rightarrow> False | Some h \<Rightarrow> has_shutdown h)"

definition initialises :: "url_map_entry \<Rightarrow> bool" where
  "initialises e = (case handler e of None \<Rightarrow> False | Some h \<Rightarrow> init h \<noteq> None)"

definition shutdown_call :: "url_map_entry \<Rightarrow> router_call" where
  "shutdown_call e = Handler_shutdown (case handler e of None \<Rightarrow> [] | Some h \<Rightarrow> handler_name h) (data e)"

definition init_call :: "url_map_entry \<Rightarrow> router_call" where
  "init_call e = Handler_init (case handler e of None \<Rightarrow> [] | Some h \<Rightarrow> handler_name h) (args e)"

text \<open>Two handlers and a table to run scenarios with.\<close>

definition lua_handler :: handler where
  "lua_handler =
     \<lparr>handler_name = ''lua'', init = Some (\<lambda>a. map_option Suc a), has_shutdown = True,
      handle = 1, handler_flags = 3\<rparr>"

definition static_entry :: url_map_entry where
  "static_entry =
     \<lparr>url_prefix = ''/'', prefix_len = 0, handler = None, data = None, args = None,
      callback = Some 9, flags = 0\<rparr>"

definition lua_entry :: url_map_entry where
  "lua_entry =
     \<lparr>url_prefix = ''/lua'', prefix_len = 0, handler = Some lua_handler, data = None,
      args = Some 40, callback = None, flags = 0\<rparr>"

section \<open>The hash map\<close>

text \<open>
  hash.c. An entry is a pair of key and value pointers. A bucket's array has \<open>total\<close>
  slots of which the first \<open>used\<close> hold entries: \<open>entries\<close> is that prefix, so
  \<open>used\<close> is its length (the slots past it are never read, except by the
  \<^verbatim>\<open>memmove\<close> of \<^verbatim>\<open>hash_del\<close>, which copies one of them over a slot that is dropped).
  The function pointers of \<^verbatim>\<open>struct hash\<close> are fields; of \<open>free_value\<close> and
  \<open>free_key\<close> only their presence is kept, with the list of what they were called on.
  The counters are \<^verbatim>\<open>unsigned int\<close>; they stay far from \<open>2 ^ 32\<close> and are naturals.
\<close>

record ('k, 'v) hash_bucket =
  entries :: "('k \<times> 'v) list"
  total :: nat

record ('k, 'v) hash =
  count :: nat
  step :: nat
  n_buckets :: nat
  hash_value :: "'k \<Rightarrow> nat \<Rightarrow> 32 word"
  key_compare :: "'k \<Rightarrow> 'k \<Rightarrow> nat \<Rightarrow> int"
  key_length :: "'k \<Rightarrow> nat"
  free_value :: bool
  free_key :: bool
  buckets :: "('k, 'v) hash_bucket list"
  freed_values :: "'v list"
  freed_keys :: "'k list"

abbreviation (input) ENOENT :: int where "ENOENT \<equiv> 2"
abbreviation (input) ENOMEM :: int where "ENOMEM \<equiv> 12"
abbreviation (input) EEXIST :: int where "EEXIST \<equiv> 17"

text \<open>\<^verbatim>\<open>hash_internal_new\<close>; \<open>None\<close> when \<^verbatim>\<open>calloc\<close> fails.\<close>

definition hash_internal_new ::
  "bool \<Rightarrow> nat \<Rightarrow> ('k \<Rightarrow> nat \<Rightarrow> 32 word) \<Rightarrow> ('k \<Rightarrow> 'k \<Rightarrow> nat \<Rightarrow> int) \<Rightarrow> ('k \<Rightarrow> nat) \<Rightarrow>
   bool \<Rightarrow> bool \<Rightarrow> ('k, 'v) hash option" where
  "hash_internal_new calloc_ok n hv cmp len fk fv =
     (if \<not> calloc_ok then None
      else Some
        \<lparr>count = 0,
         step = (if n div 32 = 0 then 4 else if n div 32 > 64 then 64 else n div 32),
         n_buckets = n, hash_value = hv, key_compare = cmp, key_length = len,
         free_value = fv, free_key = fk,
         buckets = replicate n \<lparr>entries = [], total = 0\<rparr>,
         freed_values = [], freed_keys = []\<rparr>)"

text \<open>
  The scan of \<^verbatim>\<open>hash_add\<close> over the used entries: the new array and, when an entry
  compares equal and has its value replaced, the old value.
\<close>

fun add_scan ::
  "('k \<Rightarrow> 'k \<Rightarrow> nat \<Rightarrow> int) \<Rightarrow> nat \<Rightarrow> 'k \<Rightarrow> 'v \<Rightarrow> ('k \<times> 'v) list \<Rightarrow> ('k \<times> 'v) list \<times> 'v option" where
  "add_scan cmp keylen k v [] = ([(k, v)], None)"
| "add_scan cmp keylen k v (e # es) =
     (let c = cmp k (fst e) keylen
      in if c = 0 then ((fst e, v) # es, Some (snd e))
         else if c < 0 then ((k, v) # e # es, None)
         else (let (es', old) = add_scan cmp keylen k v es in (e # es', old)))"

text \<open>\<^verbatim>\<open>hash_add\<close>; \<open>realloc_ok\<close> says whether a \<^verbatim>\<open>realloc\<close> it makes succeeds.\<close>

definition hash_add :: "bool \<Rightarrow> ('k, 'v) hash \<Rightarrow> 'k \<Rightarrow> 'v \<Rightarrow> int \<times> ('k, 'v) hash" where
  "hash_add realloc_ok h k v =
     (let keylen = key_length h k;
          hashval = hash_value h k keylen;
          pos = unat hashval mod n_buckets h;
          bucket = buckets h ! pos;
          grow = (length (entries bucket) + 1 \<ge> total bucket)
      in if grow \<and> \<not> realloc_ok then (- ENOMEM, h)
         else
           (let bucket1 = (if grow then bucket\<lparr>total := total bucket + step h\<rparr> else bucket);
                (es, old) = add_scan (key_compare h) keylen k v (entries bucket1);
                h1 = h\<lparr>buckets := (buckets h)[pos := bucket1\<lparr>entries := es\<rparr>]\<rparr>
            in case old of
                 Some w \<Rightarrow>
                   (0, if free_value h then h1\<lparr>freed_values := freed_values h @ [w]\<rparr> else h1)
               | None \<Rightarrow> (0, h1\<lparr>count := count h + 1\<rparr>)))"

text \<open>The scan of \<^verbatim>\<open>hash_add_unique\<close>: \<open>None\<close> when an entry compares equal.\<close>

fun add_unique_scan ::
  "('k \<Rightarrow> 'k \<Rightarrow> nat \<Rightarrow> int) \<Rightarrow> nat \<Rightarrow> 'k \<Rightarrow> 'v \<Rightarrow> ('k \<times> 'v) list \<Rightarrow> ('k \<times> 'v) list option" where
  "add_unique_scan cmp keylen k v [] = Some [(k, v)]"
| "add_unique_scan cmp keylen k v (e # es) =
     (let c = cmp k (fst e) keylen
      in if c = 0 then None
         else if c < 0 then Some ((k, v) # e # es)
         else map_option (\<lambda>es'. e # es') (add_unique_scan cmp keylen k v es))"

definition hash_add_unique :: "bool \<Rightarrow> ('k, 'v) hash \<Rightarrow> 'k \<Rightarrow> 'v \<Rightarrow> int \<times> ('k, 'v) hash" where
  "hash_add_unique realloc_ok h k v =
     (let keylen = key_length h k;
          hashval = hash_value h k keylen;
          pos = unat hashval mod n_buckets h;
          bucket = buckets h ! pos;
          grow = (length (entries bucket) + 1 \<ge> total bucket)
      in if grow \<and> \<not> realloc_ok then (- ENOMEM, h)
         else
           (let bucket1 = (if grow then bucket\<lparr>total := total bucket + step h\<rparr> else bucket);
                h1 = h\<lparr>buckets := (buckets h)[pos := bucket1]\<rparr>
            in case add_unique_scan (key_compare h) keylen k v (entries bucket1) of
                 None \<Rightarrow> (- EEXIST, h1)
               | Some es \<Rightarrow>
                   (0, h1\<lparr>buckets := (buckets h)[pos := bucket1\<lparr>entries := es\<rparr>],
                          count := count h + 1\<rparr>)))"

text \<open>
  The binary search of \<^verbatim>\<open>hash_find_entry\<close> over the used entries of a bucket: the index
  of the entry found.
\<close>

function find_loop ::
  "('k \<Rightarrow> 'k \<Rightarrow> nat \<Rightarrow> int) \<Rightarrow> nat \<Rightarrow> 'k \<Rightarrow> ('k \<times> 'v) list \<Rightarrow> nat \<Rightarrow> nat \<Rightarrow> nat option" where
  "find_loop cmp keylen k es lower_bound upper_bound =
     (if lower_bound < upper_bound
      then (let idx = (lower_bound + upper_bound) div 2;
                c = cmp k (fst (es ! idx)) keylen
            in if c = 0 then Some idx
               else if c > 0 then find_loop cmp keylen k es (idx + 1) upper_bound
               else find_loop cmp keylen k es lower_bound idx)
      else None)"
  by pat_completeness auto
termination
  by (relation "measure (\<lambda>(cmp, keylen, k, es, lower_bound, upper_bound). upper_bound - lower_bound)")
    auto

declare find_loop.simps [simp del]

definition hash_find_entry :: "('k, 'v) hash \<Rightarrow> 'k \<Rightarrow> 32 word \<Rightarrow> nat \<Rightarrow> nat option" where
  "hash_find_entry h k hashval keylen =
     (let pos = unat hashval mod n_buckets h;
          bucket = buckets h ! pos
      in find_loop (key_compare h) keylen k (entries bucket) 0 (length (entries bucket)))"

text \<open>\<^verbatim>\<open>hash_find\<close>: \<open>None\<close> for \<^verbatim>\<open>NULL\<close>.\<close>

definition hash_find :: "('k, 'v) hash \<Rightarrow> 'k \<Rightarrow> 'v option" where
  "hash_find h k =
     (let keylen = key_length h k;
          hashval = hash_value h k keylen
      in case hash_find_entry h k hashval keylen of
           Some idx \<Rightarrow> Some (snd (entries (buckets h ! (unat hashval mod n_buckets h)) ! idx))
         | None \<Rightarrow> None)"

text \<open>\<^verbatim>\<open>hash_del\<close>; \<open>realloc_ok\<close> says whether the shrinking \<^verbatim>\<open>realloc\<close> succeeds.\<close>

definition hash_del :: "bool \<Rightarrow> ('k, 'v) hash \<Rightarrow> 'k \<Rightarrow> int \<times> ('k, 'v) hash" where
  "hash_del realloc_ok h k =
     (let keylen = key_length h k;
          hashval = hash_value h k keylen;
          pos = unat hashval mod n_buckets h;
          bucket = buckets h ! pos
      in case hash_find_entry h k hashval keylen of
           None \<Rightarrow> (- ENOENT, h)
         | Some idx \<Rightarrow>
             (let e = entries bucket ! idx;
                  h1 = (if free_value h then h\<lparr>freed_values := freed_values h @ [snd e]\<rparr> else h);
                  h2 = (if free_key h then h1\<lparr>freed_keys := freed_keys h1 @ [fst e]\<rparr> else h1);
                  es = take idx (entries bucket) @ drop (Suc idx) (entries bucket);
                  steps_used = length es div step h;
                  steps_total = total bucket div step h;
                  bucket1 = bucket\<lparr>entries := es,
                    total := (if steps_used + 1 < steps_total \<and> realloc_ok
                              then (steps_used + 1) * step h else total bucket)\<rparr>
              in (0, h2\<lparr>buckets := (buckets h)[pos := bucket1], count := count h - 1\<rparr>)))"

text \<open>
  The string table of \<^verbatim>\<open>hash_str_new\<close>: keys are C strings (the bytes before the
  terminating NUL), compared by \<^verbatim>\<open>strncmp\<close> over \<^verbatim>\<open>strlen\<close> of the key that is looked
  up or added. \<^verbatim>\<open>strncmp\<close> compares at most \<open>n\<close> bytes as \<^verbatim>\<open>unsigned char\<close> and stops
  at the end of a string; its result is the difference of the first bytes that differ.
\<close>

fun strncmp :: "string \<Rightarrow> string \<Rightarrow> nat \<Rightarrow> int" where
  "strncmp s1 s2 0 = 0"
| "strncmp [] [] (Suc n) = 0"
| "strncmp [] (c2 # s2) (Suc n) = - int (of_char c2)"
| "strncmp (c1 # s1) [] (Suc n) = int (of_char c1)"
| "strncmp (c1 # s1) (c2 # s2) (Suc n) =
     (if c1 = c2 then strncmp s1 s2 n else int (of_char c1) - int (of_char c2))"

text \<open>
  \<^verbatim>\<open>hash_superfast\<close>, on a little-endian machine with a signed \<^verbatim>\<open>char\<close>:
  \<^verbatim>\<open>get_unaligned((uint16_t *) key)\<close> reads two bytes, the first the low one; a single
  \<^verbatim>\<open>char\<close> is sign-extended.
\<close>

definition get16 :: "string \<Rightarrow> 32 word" where
  "get16 s = of_char (s ! 0) + push_bit 8 (of_char (s ! 1))"

definition schar :: "char \<Rightarrow> 32 word" where
  "schar c = scast (of_char c :: 8 word)"

fun superfast_loop :: "nat \<Rightarrow> string \<Rightarrow> 32 word \<Rightarrow> 32 word \<times> string" where
  "superfast_loop 0 s h = (h, s)"
| "superfast_loop (Suc n) s h =
     (let h1 = h + get16 s;
          tmp = push_bit 11 (get16 (drop 2 s)) XOR h1;
          h2 = push_bit 16 h1 XOR tmp;
          h3 = h2 + drop_bit 11 h2
      in superfast_loop n (drop 4 s) h3)"

definition hash_superfast :: "string \<Rightarrow> nat \<Rightarrow> 32 word" where
  "hash_superfast keyptr len =
     (let rem = len mod 4;
          (h, s) = superfast_loop (len div 4) keyptr (of_nat len);
          h1 = (if rem = 3 then
                  (let a = h + get16 s; b = a XOR push_bit 16 a;
                       c = b XOR push_bit 18 (schar (s ! 2))
                   in c + drop_bit 11 c)
                else if rem = 2 then
                  (let a = h + get16 s; b = a XOR push_bit 11 a in b + drop_bit 17 b)
                else if rem = 1 then
                  (let a = h + schar (s ! 0); b = a XOR push_bit 10 a in b + drop_bit 1 b)
                else h);
          h2 = h1 XOR push_bit 3 h1;
          h3 = h2 + drop_bit 5 h2;
          h4 = h3 XOR push_bit 4 h3;
          h5 = h4 + drop_bit 17 h4;
          h6 = h5 XOR push_bit 25 h5
      in h6 + drop_bit 6 h6)"

definition hash_str_new :: "bool \<Rightarrow> nat \<Rightarrow> bool \<Rightarrow> bool \<Rightarrow> (string, 'v) hash option" where
  "hash_str_new calloc_ok n fk fv =
     hash_internal_new calloc_ok n hash_superfast strncmp length fk fv"

text \<open>
  The integer table of \<^verbatim>\<open>hash_int_new\<close>: a key is the pointer cast to \<^verbatim>\<open>int\<close>. The
  arithmetic of \<^verbatim>\<open>hash_int\<close> and the subtraction of \<^verbatim>\<open>hash_int_key_cmp\<close> are on
  \<^verbatim>\<open>int\<close>, written with the two's complement wrap-around; \<^verbatim>\<open>>>\<close> on a negative
  \<^verbatim>\<open>int\<close> is the arithmetic shift.
\<close>

definition hash_int :: "32 word \<Rightarrow> nat \<Rightarrow> 32 word" where
  "hash_int keyptr len =
     (let k1 = (keyptr XOR 61) XOR signed_drop_bit 16 keyptr;
          k2 = k1 + push_bit 3 k1;
          k3 = k2 XOR signed_drop_bit 4 k2;
          k4 = k3 * 0x27d4eb2d
      in k4 XOR signed_drop_bit 15 k4)"

definition hash_int_key_cmp :: "32 word \<Rightarrow> 32 word \<Rightarrow> nat \<Rightarrow> int" where
  "hash_int_key_cmp k1 k2 len = sint (k1 - k2)"

definition hash_int_new :: "bool \<Rightarrow> nat \<Rightarrow> bool \<Rightarrow> bool \<Rightarrow> (32 word, 'v) hash option" where
  "hash_int_new calloc_ok n fk fv =
     hash_internal_new calloc_ok n hash_int hash_int_key_cmp (\<lambda>k. 4) fk fv"

text \<open>
  A comparator is lawful for a linear order on the keys when its sign, on the length of
  its first argument, tells that order. \<open>lookup\<close> is the content of a table: what
  the bucket of a key holds for it. \<open>hash_inv\<close>: every bucket is strictly increasing
  in its keys, under a lawful comparator.
\<close>

definition lawful :: "('k::linorder \<Rightarrow> 'k \<Rightarrow> nat \<Rightarrow> int) \<Rightarrow> ('k \<Rightarrow> nat) \<Rightarrow> bool" where
  "lawful cmp len = (\<forall>a b. (cmp a b (len a) = 0 \<longleftrightarrow> a = b) \<and> (cmp a b (len a) < 0 \<longleftrightarrow> a < b))"

definition bucket_of :: "('k, 'v) hash \<Rightarrow> 'k \<Rightarrow> nat" where
  "bucket_of h k = unat (hash_value h k (key_length h k)) mod n_buckets h"

definition lookup :: "('k, 'v) hash \<Rightarrow> 'k \<Rightarrow> 'v option" where
  "lookup h k = map_of (entries (buckets h ! bucket_of h k)) k"

definition hash_inv :: "('k::linorder, 'v) hash \<Rightarrow> bool" where
  "hash_inv h =
     (0 < n_buckets h \<and> length (buckets h) = n_buckets h \<and>
      lawful (key_compare h) (key_length h) \<and>
      (\<forall>b \<in> set (buckets h). sorted_wrt (<) (map fst (entries b))))"

text \<open>A sequence of operations on a table, each with the fate of its \<^verbatim>\<open>realloc\<close>.\<close>

datatype ('k, 'v) hash_op = Op_add bool 'k 'v | Op_add_unique bool 'k 'v | Op_del bool 'k

fun hash_run :: "('k, 'v) hash \<Rightarrow> ('k, 'v) hash_op list \<Rightarrow> ('k, 'v) hash" where
  "hash_run h [] = h"
| "hash_run h (Op_add ok k v # ops) = hash_run (snd (hash_add ok h k v)) ops"
| "hash_run h (Op_add_unique ok k v # ops) = hash_run (snd (hash_add_unique ok h k v)) ops"
| "hash_run h (Op_del ok k # ops) = hash_run (snd (hash_del ok h k)) ops"

section \<open>Observations on a worker\<close>

text \<open>
  The fds in the death-queue ring, walking from \<open>death_queue_first\<close> over
  \<open>death_queue_population\<close> places, modulo the size of the ring.
\<close>

definition dq_entries :: "thread \<Rightarrow> nat list" where
  "dq_entries t =
     map (\<lambda>i. death_queue t ! ((death_queue_first t + i) mod max_fd t))
       [0..<death_queue_population t]"


text \<open>
  The event mask of the last \<^verbatim>\<open>epoll_ctl\<close> issued for a descriptor, by the acceptor
  (\<^verbatim>\<open>ADD\<close>) or by the worker (\<^verbatim>\<open>MOD\<close>); the mask asks for write readiness when it has
  \<^verbatim>\<open>EPOLLOUT\<close>.
\<close>

fun last_mask :: "call list \<Rightarrow> nat \<Rightarrow> 32 word option" where
  "last_mask [] n = None"
| "last_mask (c # cs) n =
     (case last_mask cs n of
        Some m \<Rightarrow> Some m
      | None \<Rightarrow> (case c of
                   Epoll_ctl e opn k m \<Rightarrow> if k = n then Some m else None
                 | _ \<Rightarrow> None))"

definition is_ctl :: "call \<Rightarrow> bool" where
  "is_ctl c = (case c of Epoll_ctl e opn n m \<Rightarrow> True | _ \<Rightarrow> False)"

definition wants_write :: "32 word \<Rightarrow> bool" where
  "wants_write m = (m AND EPOLLOUT \<noteq> 0)"

text \<open>
  The coroutines that the slots of the slab point to, the coroutines that \<^verbatim>\<open>coro_free\<close>
  was called on, and the invariant that ties them: no coroutine is held by two slots, a
  coroutine held by a slot has not been freed, no coroutine has been freed twice, and
  all of them lie below the next fresh address. \<open>coro_ok\<close> is the same seen from one
  slot, \<open>others\<close> being the coroutines of the other slots. \<open>thread_ok\<close> adds that the
  death-queue ring holds descriptors of the slab only.
\<close>

definition opt_list :: "'a option \<Rightarrow> 'a list" where
  "opt_list x = (case x of None \<Rightarrow> [] | Some a \<Rightarrow> [a])"

definition frees :: "call list \<Rightarrow> nat list" where
  "frees cs = concat (map (\<lambda>c. case c of Coro_free a \<Rightarrow> [a] | _ \<Rightarrow> []) cs)"

definition coro_ok :: "request \<Rightarrow> nat list \<Rightarrow> heap \<Rightarrow> bool" where
  "coro_ok r others h =
     (distinct (opt_list (coro r) @ others) \<and>
      (\<forall>c \<in> set (opt_list (coro r) @ others). c < next_addr h \<and> c \<notin> set (frees (calls h))) \<and>
      distinct (frees (calls h)) \<and>
      (\<forall>c \<in> set (frees (calls h)). c < next_addr h))"

definition slab_coros :: "request list \<Rightarrow> nat list" where
  "slab_coros rs = concat (map (\<lambda>r. opt_list (coro r)) rs)"

definition thread_coro_ok :: "thread \<Rightarrow> bool" where
  "thread_coro_ok t =
     (distinct (slab_coros (requests t)) \<and>
      (\<forall>c \<in> set (slab_coros (requests t)).
         c < next_addr (mem t) \<and> c \<notin> set (frees (calls (mem t)))) \<and>
      distinct (frees (calls (mem t))) \<and>
      (\<forall>c \<in> set (frees (calls (mem t))). c < next_addr (mem t)))"

definition thread_ok :: "thread \<Rightarrow> bool" where
  "thread_ok t =
     (thread_coro_ok t \<and> 0 < max_fd t \<and> length (death_queue t) = max_fd t \<and>
      death_queue_first t < max_fd t \<and> (\<forall>n \<in> set (death_queue t). n < length (requests t)))"

text \<open>Every ready event of the input is for a descriptor of the slab.\<close>

fun inputs_in_range :: "nat \<Rightarrow> worker_input list \<Rightarrow> bool" where
  "inputs_in_range k [] = True"
| "inputs_in_range k (Push n # steps) = inputs_in_range k steps"
| "inputs_in_range k (Wait (Wait_failed e) # steps) = inputs_in_range k steps"
| "inputs_in_range k (Wait (Wait_ready evs) # steps) =
     (list_all (\<lambda>ev. ev_fd ev < k) evs \<and> inputs_in_range k steps)"

text \<open>
  A process to run scenarios in: a limit of 8 descriptors, 2 threads (so 4 descriptors
  for each thread), the slab as \<^verbatim>\<open>lwan_init\<close> leaves it, and a worker with epoll
  descriptor 3 and a keep-alive timeout of 5 ticks.
\<close>

definition empty_heap :: heap where
  "empty_heap = \<lparr>strbufs = Map.empty, coros = Map.empty, next_addr = 100, calls = []\<rparr>"

definition boot_worker :: thread where
  "boot_worker =
     (case lwan_init 1 2 (Some \<lparr>rlim_cur = 8, rlim_max = 8\<rparr>) True empty_heap of
        Done l \<Rightarrow> thread_start 3 (thread_max_fd l) 5 (lwan_requests l) (lwan_mem l)
      | _ \<Rightarrow> thread_start 3 0 5 [] empty_heap)"


text \<open>
  Read readiness on a descriptor, where the resume yields or not and leaves
  \<open>is_keep_alive\<close> as given; and a hangup of the peer.
\<close>

definition readable :: "nat \<Rightarrow> bool \<Rightarrow> bool \<Rightarrow> activity" where
  "readable n y k =
     \<lparr>ev_events = EPOLLIN, ev_fd = n, ev_coro_new_ok = True,
      ev_outcome = \<lparr>yields = y, keep_alive = k\<rparr>, ev_ctl_fails = False\<rparr>"

definition hung_up :: "nat \<Rightarrow> activity" where
  "hung_up n =
     \<lparr>ev_events = EPOLLIN OR EPOLLRDHUP, ev_fd = n, ev_coro_new_ok = True,
      ev_outcome = \<lparr>yields = False, keep_alive = False\<rparr>, ev_ctl_fails = False\<rparr>"

section \<open>The death queue\<close>













text \<open>
  C2: the code breaks the claim. A keep-alive connection on descriptor 5 serves one
  request to its end; on the next event a new coroutine is spawned and its first resume
  runs \<^verbatim>\<open>_reset_request\<close>, whose \<^verbatim>\<open>memset\<close> clears \<open>alive\<close>; the worker then finds the
  connection not alive and enqueues the descriptor a second time.
\<close>

theorem keep_alive_request_enqueued_twice:
  "(let t = thread_run boot_worker
              [Push 5, Wait (Wait_ready [readable 5 False True]),
               Wait (Wait_ready [readable 5 False True])]
    in alive (requests t ! 5) \<and> dq_entries t = [5, 5] \<and> count_list (dq_entries t) 5 = 2)"
  by code_simp

section \<open>Interest flags and coroutines across a hangup\<close>

text \<open>
  What \<^verbatim>\<open>_resume_coro_if_needed\<close> does when it resumes: the result of the resume is
  stored in \<open>should_resume_coro\<close>; \<^verbatim>\<open>epoll_ctl(MOD)\<close> is issued exactly when the result
  differs from \<open>write_events\<close> as the resume left it (cleared by \<^verbatim>\<open>_reset_request\<close> on
  a coroutine's first resume), with the mask of the new direction, and \<open>write_events\<close>
  is toggled, so that it equals the result afterwards.
\<close>

lemma resume_programs_interest:
  assumes "coro request = Some c" and "should_resume_coro request" and "coros h c = Some started"
  shows "(let (request', h') = resume_coro_if_needed out ctl_fails epfd request h;
              w = (if started then write_events request else False)
          in should_resume_coro request' = yields out \<and>
             write_events request' = yields out \<and>
             filter is_ctl (drop (length (calls h)) (calls h')) =
               (if yields out = w then []
                else [Epoll_ctl epfd EPOLL_CTL_MOD (fd request)
                        (if yields out then EPOLLOUT OR EPOLLRDHUP OR EPOLLERR
                         else EPOLLIN OR EPOLLRDHUP OR EPOLLERR OR EPOLLET)]))"
  using assms
  by (auto simp: resume_coro_if_needed_def coro_resume_def reset_request_def memset_zero_def
      strbuf_reset_def log_call_def events_by_write_flag_def is_ctl_def Let_def
      split: option.splits)

text \<open>
  C3: the code breaks the claim. The coroutine of descriptor 5 yields, so the worker
  programs write interest and sets \<open>write_events\<close>. The peer hangs up:
  \<^verbatim>\<open>_handle_hangup\<close> clears \<open>alive\<close> and closes the descriptor, and leaves the
  coroutine, \<open>should_resume_coro\<close> and \<open>write_events\<close> in the slot. The kernel
  hands descriptor 5 to the next connection and the acceptor enrolls it with read
  interest. On its first event the worker resumes the coroutine left in the slot; it
  yields, the result equals \<open>write_events\<close>, and no \<^verbatim>\<open>epoll_ctl\<close> is issued: the
  connection is tracked with \<open>write_events\<close> set while the interest last programmed
  for it is the acceptor's read interest.
\<close>

theorem write_events_stale_after_hangup:
  "(let t = thread_run boot_worker
              [Push 5, Wait (Wait_ready [readable 5 True True]),
               Wait (Wait_ready [hung_up 5]),
               Push 5, Wait (Wait_ready [readable 5 True True])]
    in alive (requests t ! 5) \<and> write_events (requests t ! 5) \<and>
       last_mask (calls (mem t)) 5 = Some push_events \<and> \<not> wants_write push_events)"
  by code_simp

text \<open>
  The part of C7 that the code keeps. In every run of a worker whose events are for
  descriptors of the slab, \<^verbatim>\<open>coro_free\<close> is called at most once on any coroutine:
  \<^verbatim>\<open>_cleanup_coro\<close> clears the slot's pointer when it frees, and \<^verbatim>\<open>coro_new\<close> returns
  fresh addresses.
\<close>

lemma frees_append [simp]: "frees (xs @ ys) = frees xs @ frees ys"
  by (simp add: frees_def)

lemma frees_simps [simp]:
  "frees [] = []"
  "frees (c # cs) = (case c of Coro_free a \<Rightarrow> [a] | _ \<Rightarrow> []) @ frees cs"
  by (simp_all add: frees_def)

lemma reset_request_coro:
  "coro (fst (reset_request r h)) = coro r"
  "next_addr (snd (reset_request r h)) = next_addr h"
  "frees (calls (snd (reset_request r h))) = frees (calls h)"
  by (auto simp: reset_request_def strbuf_reset_def log_call_def Let_def split: option.splits)

lemma cleanup_coro_ok:
  "coro_ok r others h \<Longrightarrow> cleanup_coro r h = (r', h') \<Longrightarrow> coro_ok r' others h'"
  by (auto simp: coro_ok_def cleanup_coro_def coro_free_def log_call_def opt_list_def
      split: option.splits if_splits)

lemma spawn_coro_ok:
  assumes "coro_ok r others h" and "spawn_coro_if_needed ok r h = (r', h')"
  shows "coro_ok r' others h'"
proof (cases "coro r = None \<and> ok")
  case True
  then have r': "r' = r\<lparr>coro := Some (next_addr h), should_resume_coro := True, write_events := False\<rparr>"
    and h': "next_addr h' = Suc (next_addr h)" "frees (calls h') = frees (calls h)"
    using assms(2) by (auto simp: spawn_coro_if_needed_def coro_new_def log_call_def)
  have "next_addr h \<notin> set others" "next_addr h \<notin> set (frees (calls h))"
    using assms(1) True by (auto simp: coro_ok_def opt_list_def)
  then show ?thesis
    using assms(1) True by (auto simp: coro_ok_def opt_list_def r' h' less_SucI)
next
  case False
  then have "coro r' = coro r" "next_addr h' = next_addr h" "frees (calls h') = frees (calls h)"
    using assms(2)
    by (auto simp: spawn_coro_if_needed_def coro_new_def log_call_def split: option.splits)
  then show ?thesis using assms(1) by (simp add: coro_ok_def)
qed

lemma coro_resume_frame:
  assumes "coro_resume out c r h = (b, r', h')"
  shows "coro r' = coro r \<and> next_addr h' = next_addr h \<and> frees (calls h') = frees (calls h)"
proof (cases "coros h c")
  case None
  then show ?thesis using assms by (simp add: coro_resume_def)
next
  case (Some started)
  then show ?thesis using assms
    by (cases started) (auto simp: coro_resume_def log_call_def reset_request_coro Let_def case_prod_beta)
qed

lemma resume_coro_frame:
  assumes "resume_coro_if_needed out cf epfd r h = (r', h')"
  shows "coro r' = coro r \<and> next_addr h' = next_addr h \<and> frees (calls h') = frees (calls h)"
proof (cases "coro r")
  case None
  then show ?thesis using assms by (simp add: resume_coro_if_needed_def)
next
  case (Some c)
  obtain b r1 h1 where cr: "coro_resume out c r h = (b, r1, h1)" by (cases "coro_resume out c r h") auto
  from coro_resume_frame[OF cr] show ?thesis
    using assms Some cr
    by (auto simp: resume_coro_if_needed_def log_call_def Let_def split: if_splits)
qed

lemma resume_coro_ok:
  "coro_ok r others h \<Longrightarrow> resume_coro_if_needed out cf epfd r h = (r', h') \<Longrightarrow> coro_ok r' others h'"
  using resume_coro_frame[of out cf epfd r h r' h'] by (simp add: coro_ok_def)

lemma handle_hangup_ok:
  "coro_ok r others h \<Longrightarrow> handle_hangup r h = (r', h') \<Longrightarrow> coro_ok r' others h'"
  by (auto simp: coro_ok_def handle_hangup_def log_call_def)

lemma slab_split:
  assumes "n < length rs"
  shows "set (slab_coros rs) = set (opt_list (coro (rs ! n)) @ slab_coros (take n rs) @ slab_coros (drop (Suc n) rs))"
    and "distinct (slab_coros rs) = distinct (opt_list (coro (rs ! n)) @ slab_coros (take n rs) @ slab_coros (drop (Suc n) rs))"
proof -
  have "rs = take n rs @ rs ! n # drop (Suc n) rs" using assms by (rule id_take_nth_drop)
  then have e: "slab_coros rs = slab_coros (take n rs) @ opt_list (coro (rs ! n)) @ slab_coros (drop (Suc n) rs)"
    unfolding slab_coros_def by (metis concat.simps(2) concat_append list.simps(9) map_append)
  show "set (slab_coros rs) = set (opt_list (coro (rs ! n)) @ slab_coros (take n rs) @ slab_coros (drop (Suc n) rs))"
    unfolding e by auto
  show "distinct (slab_coros rs) = distinct (opt_list (coro (rs ! n)) @ slab_coros (take n rs) @ slab_coros (drop (Suc n) rs))"
    unfolding e by auto
qed

lemma slot_view:
  assumes "n < length (requests t)"
  shows "thread_coro_ok t =
     coro_ok (requests t ! n) (slab_coros (take n (requests t)) @ slab_coros (drop (Suc n) (requests t))) (mem t)"
  unfolding thread_coro_ok_def coro_ok_def slab_split[OF assms] ..

lemma slot_update:
  assumes "n < length (requests t)" and "requests t' = (requests t)[n := r]" and "mem t' = h"
  shows "thread_coro_ok t' =
     coro_ok r (slab_coros (take n (requests t)) @ slab_coros (drop (Suc n) (requests t))) h"
proof -
  have "n < length (requests t')" using assms by simp
  from slot_view[OF this] show ?thesis using assms by simp
qed

lemma dispatch_coro_ok:
  assumes "thread_coro_ok t" and "ev_fd ev < length (requests t)"
  shows "thread_coro_ok (dispatch t ev)"
proof -
  let ?n = "ev_fd ev"
  let ?O = "slab_coros (take ?n (requests t)) @ slab_coros (drop (Suc ?n) (requests t))"
  let ?r = "(requests t ! ?n)\<lparr>fd := ?n\<rparr>"
  have r0: "coro_ok ?r ?O (mem t)"
    using assms slot_view[OF assms(2)] by (simp add: coro_ok_def)
  show ?thesis
  proof (cases "ev_events ev AND (EPOLLRDHUP OR EPOLLHUP) \<noteq> 0")
    case True
    obtain r1 h1 where hh: "handle_hangup ?r (mem t) = (r1, h1)" by (cases "handle_hangup ?r (mem t)") auto
    have "coro_ok r1 ?O h1" using handle_hangup_ok[OF r0 hh] .
    moreover have "dispatch t ev = t\<lparr>requests := (requests t)[?n := r1], mem := h1\<rparr>"
      using True hh by (simp add: dispatch_def Let_def)
    ultimately show ?thesis using slot_update[OF assms(2), of _ r1 h1] by simp
  next
    case False
    obtain r1 h1 where c1: "cleanup_coro ?r (mem t) = (r1, h1)" by (cases "cleanup_coro ?r (mem t)") auto
    obtain r2 h2 where c2: "spawn_coro_if_needed (ev_coro_new_ok ev) r1 h1 = (r2, h2)"
      by (cases "spawn_coro_if_needed (ev_coro_new_ok ev) r1 h1") auto
    obtain r3 h3 where c3: "resume_coro_if_needed (ev_outcome ev) (ev_ctl_fails ev) (epoll_fd t) r2 h2 = (r3, h3)"
      by (cases "resume_coro_if_needed (ev_outcome ev) (ev_ctl_fails ev) (epoll_fd t) r2 h2") auto
    have k3: "coro_ok r3 ?O h3"
      using resume_coro_ok[OF spawn_coro_ok[OF cleanup_coro_ok[OF r0 c1] c2] c3] .
    define r4 where "r4 = r3\<lparr>time_to_die :=
        (if is_keep_alive r3 \<or> should_resume_coro r3
         then death_time t + keep_alive_timeout t else death_time t)\<rparr>"
    define r5 where "r5 = (if alive r3 then r4 else r4\<lparr>alive := True\<rparr>)"
    have d: "requests (dispatch t ev) = (requests t)[?n := r5]" "mem (dispatch t ev) = h3"
      using False c1 c2 c3 by (simp_all add: dispatch_def Let_def r5_def r4_def)
    have c5: "coro r5 = coro r3" by (simp add: r5_def r4_def)
    have "coro_ok r5 ?O h3" using k3 c5 by (simp add: coro_ok_def)
    then show ?thesis using slot_update[OF assms(2) d] by simp
  qed
qed

lemma dispatch_frame:
  "max_fd (dispatch t ev) = max_fd t \<and> length (death_queue (dispatch t ev)) = length (death_queue t) \<and>
   death_queue_first (dispatch t ev) = death_queue_first t \<and>
   length (requests (dispatch t ev)) = length (requests t) \<and>
   set (death_queue (dispatch t ev)) \<subseteq> insert (ev_fd ev) (set (death_queue t))"
proof -
  have "set ((death_queue t)[death_queue_last t := ev_fd ev]) \<subseteq> insert (ev_fd ev) (set (death_queue t))"
    by (rule set_update_subset_insert)
  then show ?thesis
    by (auto simp: dispatch_def Let_def case_prod_beta)
qed

lemma dispatch_ok:
  assumes "thread_ok t" and "ev_fd ev < length (requests t)"
  shows "thread_ok (dispatch t ev) \<and> length (requests (dispatch t ev)) = length (requests t)"
  using assms dispatch_coro_ok[of t ev] dispatch_frame[of t ev]
  by (auto simp: thread_ok_def)

lemma reap_step_ok:
  assumes "thread_ok t" and "reap_step t = Some t'"
  shows "thread_ok t' \<and> length (requests t') = length (requests t)"
proof -
  let ?n = "death_queue t ! death_queue_first t"
  have n: "?n < length (requests t)" using assms(1) by (auto simp: thread_ok_def)
  let ?O = "slab_coros (take ?n (requests t)) @ slab_coros (drop (Suc ?n) (requests t))"
  have r0: "coro_ok (requests t ! ?n) ?O (mem t)"
    using assms(1) slot_view[OF n] by (simp add: thread_ok_def)
  have fr: "max_fd t' = max_fd t" "death_queue t' = death_queue t"
    "death_queue_first t' = Suc (death_queue_first t) mod max_fd t"
    "length (requests t') = length (requests t)"
    using assms(2) by (auto simp: reap_step_def Let_def split: if_splits prod.splits)
  have "thread_coro_ok t'"
  proof (cases "alive (requests t ! ?n)")
    case False
    then have "requests t' = requests t" "mem t' = mem t"
      using assms(2) by (auto simp: reap_step_def Let_def split: if_splits)
    then show ?thesis using assms(1) by (simp add: thread_ok_def thread_coro_ok_def)
  next
    case True
    obtain r1 h1 where c1: "cleanup_coro (requests t ! ?n) (mem t) = (r1, h1)"
      by (cases "cleanup_coro (requests t ! ?n) (mem t)") auto
    have k: "coro_ok r1 ?O h1" using cleanup_coro_ok[OF r0 c1] .
    have d: "requests t' = (requests t)[?n := r1\<lparr>alive := False\<rparr>]" "mem t' = log_call (Close (fd r1)) h1"
      using assms(2) True c1 by (auto simp: reap_step_def Let_def split: if_splits)
    have "coro_ok (r1\<lparr>alive := False\<rparr>) ?O (log_call (Close (fd r1)) h1)"
      using k by (simp add: coro_ok_def log_call_def)
    then show ?thesis using slot_update[OF n d] by simp
  qed
  then show ?thesis using assms(1) fr by (auto simp: thread_ok_def)
qed

lemma reap_ok: "thread_ok t \<Longrightarrow> thread_ok (reap t) \<and> length (requests (reap t)) = length (requests t)"
proof (induction t rule: reap.induct)
  case (1 t)
  show ?case
  proof (cases "reap_step t")
    case None
    then show ?thesis using 1 by simp
  next
    case (Some t')
    then show ?thesis using 1 reap_step_ok[OF "1.prems" Some] by simp
  qed
qed

lemma foldl_dispatch_ok:
  "thread_ok t \<Longrightarrow> list_all (\<lambda>ev. ev_fd ev < length (requests t)) evs \<Longrightarrow>
   thread_ok (foldl dispatch t evs) \<and> length (requests (foldl dispatch t evs)) = length (requests t)"
proof (induction evs arbitrary: t)
  case Nil
  then show ?case by simp
next
  case (Cons ev evs)
  have "thread_ok (dispatch t ev) \<and> length (requests (dispatch t ev)) = length (requests t)"
    using Cons.prems by (intro dispatch_ok) simp_all
  then show ?case using Cons.IH[of "dispatch t ev"] Cons.prems by simp
qed

lemma tick_ok: "thread_ok t \<Longrightarrow> thread_ok (t\<lparr>death_time := d\<rparr>)"
  by (simp add: thread_ok_def thread_coro_ok_def)

lemma push_ok: "thread_ok t \<Longrightarrow> thread_ok (t\<lparr>mem := log_call (Epoll_ctl e opn n m) (mem t)\<rparr>)"
  by (simp add: thread_ok_def thread_coro_ok_def log_call_def)

lemma thread_run_ok:
  "thread_ok t \<Longrightarrow> inputs_in_range (length (requests t)) steps \<Longrightarrow> thread_ok (thread_run t steps)"
proof (induction t steps rule: thread_run.induct)
  case (1 t)
  then show ?case by simp
next
  case (2 t n steps)
  then show ?case using push_ok[of t] by simp
next
  case (3 t res steps)
  show ?case
  proof (cases res)
    case (Wait_failed e)
    then show ?thesis using 3 by (auto simp: thread_turn_def)
  next
    case (Wait_ready evs)
    show ?thesis
    proof (cases evs)
      case Nil
      let ?t = "reap (t\<lparr>death_time := death_time t + 1\<rparr>)"
      have "thread_ok ?t \<and> length (requests ?t) = length (requests t)"
        using reap_ok[OF tick_ok[OF "3.prems"(1)], of "death_time t + 1"] by simp
      moreover have "thread_turn t res = Inr ?t" using Nil Wait_ready by (simp add: thread_turn_def)
      ultimately show ?thesis using 3 Wait_ready Nil by simp
    next
      case (Cons ev evs')
      let ?t = "foldl dispatch t evs"
      have "thread_ok ?t \<and> length (requests ?t) = length (requests t)"
        using 3 Wait_ready by (intro foldl_dispatch_ok) simp_all
      moreover have "thread_turn t res = Inr ?t" using Cons Wait_ready by (simp add: thread_turn_def)
      ultimately show ?thesis using 3 Wait_ready by simp
    qed
  qed
qed

lemma count_frees: "count_list cs (Coro_free c) = count_list (frees cs) c"
  by (induction cs) (auto split: call.splits)

lemma distinct_count_le_1: "distinct xs \<Longrightarrow> count_list xs a \<le> 1"
  by (induction xs) (auto simp: count_list_0_iff)

lemma coro_free_at_most_once:
  assumes "thread_ok t" and "inputs_in_range (length (requests t)) steps"
  shows "count_list (calls (mem (thread_run t steps))) (Coro_free c) \<le> 1"
proof -
  have "distinct (frees (calls (mem (thread_run t steps))))"
    using thread_run_ok[OF assms] by (simp add: thread_ok_def thread_coro_ok_def)
  then show ?thesis unfolding count_frees by (rule distinct_count_le_1)
qed

lemma boot_worker_ok: "thread_ok boot_worker"
  by code_simp

text \<open>
  C7: the code breaks the claim. After a hangup with a resumable coroutine (address 107,
  the first the worker allocates), neither the reap passes (the tombstone is skipped
  before \<^verbatim>\<open>_cleanup_coro\<close> is reached) nor the next event for descriptor 5
  (\<^verbatim>\<open>_cleanup_coro\<close> returns at once, for \<open>should_resume_coro\<close> is still set) free
  it: \<^verbatim>\<open>coro_free\<close> is never called, and the next event resumes the coroutine of the
  connection that is gone.
\<close>

theorem suspended_coro_survives_hangup:
  "(let t1 = thread_run boot_worker
              [Push 5, Wait (Wait_ready [readable 5 True True]),
               Wait (Wait_ready [hung_up 5]),
               Wait (Wait_ready []), Wait (Wait_ready []), Wait (Wait_ready []),
               Wait (Wait_ready []), Wait (Wait_ready [])];
        t2 = thread_run t1 [Push 5, Wait (Wait_ready [readable 5 True True])]
    in death_time t1 = 5 \<and> dq_entries t1 = [] \<and>
       coro (requests t1 ! 5) = Some 107 \<and> coros (mem t1) 107 = Some True \<and>
       count_list (calls (mem t1)) (Coro_free 107) = 0 \<and>
       coro (requests t2 ! 5) = Some 107 \<and> coros (mem t2) 107 = Some True \<and>
       count_list (calls (mem t2)) (Coro_free 107) = 0 \<and>
       count_list (calls (mem t2)) (Coro_resume 107) = 2 \<and>
       count_list (calls (mem t2)) (Coro_new 107) = 1)"
  by code_simp

section \<open>The slab after initialisation\<close>

lemma init_slots_keeps_0: "fst (init_slots self n slab h) ! 0 = slab ! 0"
  by (induction n arbitrary: slab h) (simp_all add: case_prod_beta)

lemma init_slots_length: "length (fst (init_slots self n slab h)) = length slab"
  by (induction n arbitrary: slab h) (simp_all add: case_prod_beta)

lemma lwan_init_slot_0:
  assumes "lwan_init self nprocs lim set_ok h = Done l"
  shows "0 < length (lwan_requests l) \<and> lwan_requests l ! 0 = zero_request"
proof -
  obtain r where lim: "lim = Some r"
    using assms by (cases lim) (auto simp: lwan_init_def)
  define cur where "cur = (if rlim_max r = RLIM_INFINITY then rlim_cur r * 8
                         else if rlim_cur r < rlim_max r then rlim_max r else rlim_cur r)"
  have nz: "cur \<noteq> 0" and l: "lwan_requests l =
      fst (init_slots self (unat (cur - 1)) (replicate (unat cur) zero_request) h)"
    using assms unfolding lim cur_def
    by (auto simp: lwan_init_def Let_def case_prod_beta split: if_splits)
  have "0 < unat cur" using nz by (simp add: unat_gt_0)
  then show ?thesis by (simp add: l init_slots_keeps_0 init_slots_length)
qed

text \<open>
  C6: the code breaks the claim. With a limit of 8 descriptors the loop of \<^verbatim>\<open>lwan_init\<close>
  gives slots 7 down to 1 a response buffer and the back-pointer and stops before slot 0,
  which stays as \<^verbatim>\<open>calloc\<close> left it.
\<close>

theorem lwan_init_skips_slot_0:
  "(case lwan_init 1 2 (Some \<lparr>rlim_cur = 8, rlim_max = 8\<rparr>) True empty_heap of
      Done l \<Rightarrow>
        map response_buffer (lwan_requests l) =
          [None, Some 106, Some 105, Some 104, Some 103, Some 102, Some 101, Some 100] \<and>
        map lwan (lwan_requests l) =
          [None, Some 1, Some 1, Some 1, Some 1, Some 1, Some 1, Some 1]
    | _ \<Rightarrow> False)"
  by code_simp

section \<open>Errors and round-robin in the acceptor\<close>

lemma sint_of_nat_small: "c < 2 ^ 31 \<Longrightarrow> sint (of_nat c :: 32 word) = int c"
  by (simp add: signed_of_nat signed_take_bit_int_eq_self)

lemma smod_nonneg: "0 < k \<Longrightarrow> int c smod int k = int (c mod k)"
  by (cases "c = 0") (simp_all add: smod_int_alt_def zmod_int)

lemma push_in_range:
  assumes "counter l = of_nat c" "c < 2 ^ 31" "0 < length (threads l)"
  shows "push_request_fd l n True = Accepting (l\<lparr>counter := of_nat (Suc c),
     acc_calls := acc_calls l @ [Epoll_ctl (threads l ! (c mod length (threads l))) EPOLL_CTL_ADD n push_events]\<rparr>)"
proof -
  have "c mod length (threads l) < length (threads l)" using assms(3) by simp
  then show ?thesis
    using assms by (simp add: push_request_fd_def sint_of_nat_small smod_nonneg Let_def not_le)
qed

lemma accepts_log:
  assumes "counter l = of_nat c" "c + length fds \<le> 2 ^ 31" "0 < length (threads l)"
  shows "main_loop_events l (accepts fds) = Accepting (l\<lparr>counter := of_nat (c + length fds),
     acc_calls := acc_calls l @ map (\<lambda>i. Epoll_ctl (threads l ! ((c + i) mod length (threads l))) EPOLL_CTL_ADD (fds ! i) push_events) [0..<length fds]\<rparr>)"
  using assms
proof (induction fds arbitrary: l c)
  case Nil
  then show ?case by (simp add: accepts_def)
next
  case (Cons n fds)
  let ?l' = "l\<lparr>counter := of_nat (Suc c),
     acc_calls := acc_calls l @ [Epoll_ctl (threads l ! (c mod length (threads l))) EPOLL_CTL_ADD n push_events]\<rparr>"
  have p: "push_request_fd l n True = Accepting ?l'"
    using Cons.prems by (intro push_in_range) auto
  have ih: "main_loop_events ?l' (accepts fds) = Accepting (?l'\<lparr>counter := of_nat (Suc c + length fds),
     acc_calls := acc_calls ?l' @ map (\<lambda>i. Epoll_ctl (threads ?l' ! ((Suc c + i) mod length (threads ?l'))) EPOLL_CTL_ADD (fds ! i) push_events) [0..<length fds]\<rparr>)"
    using Cons.prems by (intro Cons.IH) auto
  show ?case
    using p ih by (simp add: accepts_def map_upt_Suc del: upt_Suc)
qed



lemma push_ctl_fails:
  assumes "counter l = of_nat c" "c < 2 ^ 31" "0 < length (threads l)"
  shows "push_request_fd l n False = Exited (- 1) (l\<lparr>counter := of_nat (Suc c),
     acc_calls := acc_calls l @ [Epoll_ctl (threads l ! (c mod length (threads l))) EPOLL_CTL_ADD n push_events,
       Perror ''epoll_ctl'']\<rparr>)"
proof -
  have "c mod length (threads l) < length (threads l)" using assms(3) by simp
  then show ?thesis
    using assms by (simp add: push_request_fd_def sint_of_nat_small smod_nonneg Let_def not_le)
qed

lemma main_loop_events_append:
  "main_loop_events l (xs @ ys) =
     (case main_loop_events l xs of
        Accepting l' \<Rightarrow> main_loop_events l' ys
      | Exited code l' \<Rightarrow> Exited code l'
      | Out_of_bounds \<Rightarrow> Out_of_bounds)"
proof (induction l xs rule: main_loop_events.induct)
  case (3 l n ctl_ok evs)
  then show ?case by (cases "push_request_fd l n ctl_ok") simp_all
qed simp_all

lemma main_loop_flat: "main_loop l batches = main_loop_events l (concat (map rev batches))"
proof (induction batches arbitrary: l)
  case (Cons b bs)
  then show ?case by (cases "main_loop_events l (rev b)") (simp_all add: main_loop_events_append)
qed simp

lemma root_event_simps [simp]:
  "enroll_fails (Listen Accept_failed) = False"
  "enroll_fails (Listen (Accepted n ctl_ok)) = (\<not> ctl_ok)"
  "enroll_fails Dir_watch = False"
  "accept_fails (Listen Accept_failed) = True"
  "accept_fails (Listen (Accepted n ctl_ok)) = False"
  "accept_fails Dir_watch = False"
  "accepted (Listen Accept_failed) = False"
  "accepted (Listen (Accepted n ctl_ok)) = True"
  "accepted Dir_watch = False"
  by (simp_all add: enroll_fails_def accept_fails_def accepted_def)

lemma events_errors:
  assumes "counter l = of_nat c" "c + length evs \<le> 2 ^ 31" "0 < length (threads l)"
  shows "(list_ex enroll_fails evs \<longrightarrow>
            (\<exists>l'. main_loop_events l evs = Exited (- 1) l' \<and> last (acc_calls l') = Perror ''epoll_ctl'')) \<and>
         (\<not> list_ex enroll_fails evs \<longrightarrow>
            (\<exists>l'. main_loop_events l evs = Accepting l' \<and>
                 count_list (acc_calls l') (Perror ''accept'') =
                   count_list (acc_calls l) (Perror ''accept'') + length (filter accept_fails evs) \<and>
                 counter l' = counter l + of_nat (length (filter accepted evs))))"
  using assms
proof (induction l evs arbitrary: c rule: main_loop_events.induct)
  case (1 l)
  then show ?case by simp
next
  case (2 l evs)
  let ?l = "l\<lparr>acc_calls := acc_calls l @ [Perror ''accept'']\<rparr>"
  have "counter ?l = of_nat c" "c + length evs \<le> 2 ^ 31" "0 < length (threads ?l)"
    using 2 by auto
  from "2.IH"[OF this] show ?case
    by simp
next
  case (3 l n ctl_ok evs)
  have c: "c < 2 ^ 31" using 3 by simp
  show ?case
  proof (cases ctl_ok)
    case True
    let ?l = "l\<lparr>counter := of_nat (Suc c),
     acc_calls := acc_calls l @ [Epoll_ctl (threads l ! (c mod length (threads l))) EPOLL_CTL_ADD n push_events]\<rparr>"
    have p: "push_request_fd l n ctl_ok = Accepting ?l"
      using True push_in_range[OF "3.prems"(1) c "3.prems"(3)] by simp
    have "counter ?l = of_nat (Suc c)" "Suc c + length evs \<le> 2 ^ 31" "0 < length (threads ?l)"
      using 3 by auto
    from "3.IH"[OF p this] show ?thesis
      using p True "3.prems"(1) by (auto simp: ac_simps)
  next
    case False
    then show ?thesis
      using push_ctl_fails[OF "3.prems"(1) c "3.prems"(3)] by simp
  qed
next
  case (4 l evs)
  have "c + length evs \<le> 2 ^ 31" using 4 by simp
  from "4.IH"[OF "4.prems"(1) this "4.prems"(3)] show ?case
    by simp
qed


text \<open>
  C8, as stated, fails: when the enrollment of an accepted descriptor fails, the
  acceptor logs the error and the process exits with status -1.
\<close>

theorem enrollment_failure_exits:
  "main_loop \<lparr>threads = [3, 4, 5, 6], counter = 0, acc_calls = []\<rparr> [[Listen (Accepted 9 False)]] =
     Exited (- 1) \<lparr>threads = [3, 4, 5, 6], counter = 1,
        acc_calls = [Epoll_ctl 3 EPOLL_CTL_ADD 9 push_events, Perror ''epoll_ctl'']\<rparr>"
  by code_simp

text \<open>
  C8, amended: on the acceptor's per-connection path a failed \<^verbatim>\<open>accept4\<close> is logged
  and the acceptor goes on with the next event; a failed enrollment of an accepted
  descriptor is logged and the process exits with status -1. Over any returns of
  \<^verbatim>\<open>epoll_wait\<close>: when an enrollment among them fails the loop ends in
  \<^verbatim>\<open>exit(-1)\<close> with \<^verbatim>\<open>perror("epoll_ctl")\<close> the last thing logged; otherwise the
  acceptor is still accepting after them, each failed accept was logged once, and each
  accepted descriptor advanced the counter.
\<close>

theorem acceptor_errors:
  assumes "counter l = of_nat c" and "c + length (concat batches) \<le> 2 ^ 31"
    and "0 < length (threads l)"
  shows "(list_ex (list_ex enroll_fails) batches \<longrightarrow>
            (\<exists>l'. main_loop l batches = Exited (- 1) l' \<and>
                  last (acc_calls l') = Perror ''epoll_ctl'')) \<and>
         (\<not> list_ex (list_ex enroll_fails) batches \<longrightarrow>
            (\<exists>l'. main_loop l batches = Accepting l' \<and>
                  count_list (acc_calls l') (Perror ''accept'') =
                    count_list (acc_calls l) (Perror ''accept'') +
                    length (filter accept_fails (concat batches)) \<and>
                  counter l' = counter l + of_nat (length (filter accepted (concat batches)))))"
proof -
  let ?evs = "concat (map rev batches)"
  have len: "length ?evs = length (concat batches)"
    by (induction batches) simp_all
  have ex: "list_ex enroll_fails ?evs = list_ex (list_ex enroll_fails) batches"
    by (induction batches) (auto simp: list_ex_iff)
  have f1: "length (filter accept_fails ?evs) = length (filter accept_fails (concat batches))"
    by (induction batches) (simp_all add: rev_filter[symmetric])
  have f2: "length (filter accepted ?evs) = length (filter accepted (concat batches))"
    by (induction batches) (simp_all add: rev_filter[symmetric])
  have "c + length ?evs \<le> 2 ^ 31" using assms(2) len by simp
  from events_errors[OF assms(1) this assms(3)] show ?thesis
    by (simp add: main_loop_flat ex f1 f2)
qed

theorem acceptor_errors_witness:
  "(let l = \<lparr>threads = [3, 4, 5, 6], counter = 0, acc_calls = []\<rparr>;
        batches = [[Listen (Accepted 9 True), Listen Accept_failed], [Dir_watch, Listen Accept_failed]]
    in counter l = of_nat 0 \<and> 0 + length (concat batches) \<le> (2::nat) ^ 31 \<and> 0 < length (threads l) \<and>
       \<not> list_ex (list_ex enroll_fails) batches \<and>
       main_loop l batches = Accepting \<lparr>threads = [3, 4, 5, 6], counter = 1,
          acc_calls = [Perror ''accept'', Epoll_ctl 3 EPOLL_CTL_ADD 9 push_events, Perror ''accept'']\<rparr> \<and>
       main_loop l (batches @ [[Listen (Accepted 10 False)]]) = Exited (- 1) \<lparr>threads = [3, 4, 5, 6], counter = 2,
          acc_calls = [Perror ''accept'', Epoll_ctl 3 EPOLL_CTL_ADD 9 push_events, Perror ''accept'',
             Epoll_ctl 4 EPOLL_CTL_ADD 10 push_events, Perror ''epoll_ctl'']\<rparr>)"
proof -
  let ?l = "\<lparr>threads = [3, 4, 5, 6], counter = 0, acc_calls = []\<rparr>"
  let ?b = "[[Listen (Accepted 9 True), Listen Accept_failed], [Dir_watch, Listen Accept_failed]]"
  have h1: "counter ?l = of_nat 0" by simp
  have h2: "0 + length (concat ?b) \<le> (2::nat) ^ 31" by simp
  have h3: "0 < length (threads ?l)" by simp
  have e: "main_loop ?l ?b = Accepting \<lparr>threads = [3, 4, 5, 6], counter = 1,
          acc_calls = [Perror ''accept'', Epoll_ctl 3 EPOLL_CTL_ADD 9 push_events, Perror ''accept'']\<rparr> \<and>
       main_loop ?l (?b @ [[Listen (Accepted 10 False)]]) = Exited (- 1) \<lparr>threads = [3, 4, 5, 6], counter = 2,
          acc_calls = [Perror ''accept'', Epoll_ctl 3 EPOLL_CTL_ADD 9 push_events, Perror ''accept'',
             Epoll_ctl 4 EPOLL_CTL_ADD 10 push_events, Perror ''epoll_ctl'']\<rparr>"
    by code_simp
  show ?thesis
    using acceptor_errors[OF h1 h2 h3] e by (simp add: Let_def)
qed

text \<open>
  C9: the code breaks the claim. The i-th accepted fd is to go to worker
  \<open>i mod n_workers\<close> for every i over the lifetime of the process, and
  \<^verbatim>\<open>_push_request_fd\<close> computes that index as \<^verbatim>\<open>counter++ % l->thread.count\<close> from a
  \<^verbatim>\<open>static int\<close> that it increments forever. With 3 workers, the first \<open>2 ^ 31\<close>
  accepted connections take the counter to the greatest \<^verbatim>\<open>int\<close> and over it. C leaves
  that increment undefined; on the machine it wraps to \<open>- 2 ^ 31\<close>, the remainder is
  -2, and the next descriptor (i = \<open>2 ^ 31\<close>) is not enrolled into worker
  \<open>2 ^ 31 mod 3 = 2\<close>: the index points before the array of threads. (The type of
  \<^verbatim>\<open>l->thread.count\<close> is declared in lwan.h, which is not among the sources; with an
  unsigned count the remainder would stay in range and leave the round-robin at
  i = \<open>2 ^ 32\<close> instead, where the counter is 0 again and \<open>2 ^ 32 mod 3 = 1\<close>.)
\<close>

theorem round_robin_breaks_at_int_overflow:
  "(case main_loop_events \<lparr>threads = [3, 4, 5], counter = 0, acc_calls = []\<rparr>
           (accepts (replicate (2 ^ 31) 9)) of
      Accepting l' \<Rightarrow> counter l' = 0x80000000 \<and> push_request_fd l' 9 True = Out_of_bounds
    | _ \<Rightarrow> False)"
proof -
  let ?l = "\<lparr>threads = [3, 4, 5], counter = 0, acc_calls = []\<rparr>"
  have h: "counter ?l = of_nat 0" "0 + length (replicate (2 ^ 31) (9::nat)) \<le> 2 ^ 31" "0 < length (threads ?l)"
    by simp_all
  obtain l' where r: "main_loop_events ?l (accepts (replicate (2 ^ 31) 9)) = Accepting l'"
    and c: "counter l' = of_nat (2 ^ 31)" and t: "threads l' = [3, 4, 5]"
    unfolding accepts_log[OF h] by simp
  have "counter l' = 0x80000000" using c by simp
  moreover from this have "push_request_fd l' 9 True = Out_of_bounds"
    using t by (simp add: push_request_fd_def Let_def)
  ultimately show ?thesis using r by simp
qed

text \<open>
  Short of that overflow the acceptor does what the claim says: for every sequence of
  at most \<open>2 ^ 31\<close> connections that are accepted and enrolled without an error, the
  i-th accepted fd (from 0) is enrolled into the epoll set of worker \<open>i mod n_workers\<close>
  with interest \<^verbatim>\<open>EPOLLIN|EPOLLRDHUP|EPOLLERR|EPOLLET\<close>. The instance proved after it is
  the scenario of the spec: with 4 workers, 8 accepts go to workers 0, 1, 2, 3, 0, 1, 2, 3
  (whose epoll descriptors are 3, 4, 5, 6).
\<close>

lemma round_robin:
  assumes "counter l = 0" and "0 < length (threads l)" and "length fds \<le> 2 ^ 31"
  shows "main_loop_events l (accepts fds) =
     Accepting (l\<lparr>counter := of_nat (length fds),
       acc_calls := acc_calls l @
         map (\<lambda>i. Epoll_ctl (threads l ! (i mod length (threads l))) EPOLL_CTL_ADD (fds ! i) push_events)
           [0..<length fds]\<rparr>)"
  using accepts_log[of l 0 fds] assms by simp

lemma round_robin_scenario:
  "main_loop_events \<lparr>threads = [3, 4, 5, 6], counter = 0, acc_calls = []\<rparr>
       (accepts [10, 11, 12, 13, 14, 15, 16, 17]) =
     Accepting \<lparr>threads = [3, 4, 5, 6], counter = 8,
       acc_calls =
         [Epoll_ctl 3 EPOLL_CTL_ADD 10 push_events, Epoll_ctl 4 EPOLL_CTL_ADD 11 push_events,
          Epoll_ctl 5 EPOLL_CTL_ADD 12 push_events, Epoll_ctl 6 EPOLL_CTL_ADD 13 push_events,
          Epoll_ctl 3 EPOLL_CTL_ADD 14 push_events, Epoll_ctl 4 EPOLL_CTL_ADD 15 push_events,
          Epoll_ctl 5 EPOLL_CTL_ADD 16 push_events, Epoll_ctl 6 EPOLL_CTL_ADD 17 push_events]\<rparr>"
proof -
  have u: "[0..<8] = [0, 1, 2, 3, 4, 5, 6, 7]" by code_simp
  show ?thesis
    using round_robin[of "\<lparr>threads = [3, 4, 5, 6], counter = 0, acc_calls = []\<rparr>" "[10, 11, 12, 13, 14, 15, 16, 17]"]
    by (simp add: u)
qed

section \<open>Re-registering the URL map\<close>

lemma shutdown_entry_calls:
  "filter is_shutdown (concat (map shutdown_entry es)) = map shutdown_call (filter tears_down es)"
  "\<not> list_ex is_init (concat (map shutdown_entry es))"
  by (induction es)
    (auto simp: shutdown_entry_def shutdown_call_def tears_down_def is_shutdown_def is_init_def
      split: option.splits)

lemma register_entry_calls:
  "filter is_init (concat (map (\<lambda>e. snd (register_entry k e)) es)) = map init_call (filter initialises es)"
  "\<not> list_ex is_shutdown (concat (map (\<lambda>e. snd (register_entry k e)) es))"
  by (induction es)
    (auto simp: register_entry_def init_call_def initialises_def is_shutdown_def is_init_def Let_def
      split: option.splits)

text \<open>
  C5, as stated, fails: an entry without a handler (or whose handler has no
  \<open>shutdown\<close>) is passed over by \<^verbatim>\<open>_url_map_free\<close>. Registering the table of the
  entries \<^verbatim>\<open>/\<close> (no handler) and \<^verbatim>\<open>/lua\<close> and then another table invokes one teardown
  for the two registered entries.
\<close>

theorem teardown_skips_entries_without_shutdown:
  "(case lwan_set_url_map 7 True \<lparr>url_map = None, router_calls = []\<rparr> [static_entry, lua_entry] of
      Registered l1 \<Rightarrow>
        (case lwan_set_url_map 7 True l1 [lua_entry] of
           Registered l2 \<Rightarrow>
             map_option (map url_prefix) (url_map l1) = Some [''/'', ''/lua''] \<and>
             router_calls l2 =
               [Trie_new, Trie_add ''/'', Trie_add ''/lua'', Handler_init ''lua'' (Some 40),
                Trie_destroy, Handler_shutdown ''lua'' (Some 41),
                Trie_new, Trie_add ''/lua'', Handler_init ''lua'' (Some 40)] \<and>
             length (filter is_shutdown (router_calls l2)) = 1
         | _ \<Rightarrow> False)
    | _ \<Rightarrow> False)"
  by code_simp

text \<open>
  C5, amended: setting the URL map invokes the handler's \<open>shutdown\<close>, with the entry's
  \<open>data\<close>, exactly once and in table order on every entry of the previously registered
  table whose handler is present and has a \<open>shutdown\<close>, before it invokes \<open>init\<close> on
  any entry of the new table (every \<open>init\<close> call comes after \<^verbatim>\<open>lwan_trie_new\<close>, every
  \<open>shutdown\<close> call before it); on first registration no teardown is invoked.
\<close>

theorem set_url_map_teardown_before_init:
  "\<exists>l' pre post.
     lwan_set_url_map parse_mask True l table = Registered l' \<and>
     router_calls l' = router_calls l @ pre @ Trie_new # post \<and>
     filter is_shutdown pre =
       map shutdown_call (filter tears_down (case url_map l of None \<Rightarrow> [] | Some old \<Rightarrow> old)) \<and>
     \<not> list_ex is_init pre \<and>
     filter is_init post = map init_call (filter initialises table) \<and>
     \<not> list_ex is_shutdown post"
proof (cases "url_map l")
  case None
  show ?thesis
    apply (rule exI[of _ "l\<lparr>url_map := Some (map (\<lambda>e. fst (register_entry parse_mask e)) table),
        router_calls := router_calls l @ Trie_new # concat (map (\<lambda>e. snd (register_entry parse_mask e)) table)\<rparr>"])
    apply (rule exI[of _ "[]"])
    apply (rule exI[of _ "concat (map (\<lambda>e. snd (register_entry parse_mask e)) table)"])
    using None by (simp add: lwan_set_url_map_def url_map_free_def register_entry_calls)
next
  case (Some old)
  show ?thesis
    apply (rule exI[of _ "l\<lparr>url_map := Some (map (\<lambda>e. fst (register_entry parse_mask e)) table),
        router_calls := router_calls l @ Trie_destroy # concat (map shutdown_entry old) @
          Trie_new # concat (map (\<lambda>e. snd (register_entry parse_mask e)) table)\<rparr>"])
    apply (rule exI[of _ "Trie_destroy # concat (map shutdown_entry old)"])
    apply (rule exI[of _ "concat (map (\<lambda>e. snd (register_entry parse_mask e)) table)"])
    using Some
    by (simp add: lwan_set_url_map_def url_map_free_def register_entry_calls shutdown_entry_calls
        is_shutdown_def is_init_def)
qed

section \<open>Lookups in the hash map\<close>

text \<open>
  What hash.c does get right: under a lawful comparator \<^verbatim>\<open>hash_add\<close>,
  \<^verbatim>\<open>hash_add_unique\<close> and \<^verbatim>\<open>hash_del\<close> keep every bucket strictly increasing and
  change the content of the table as their names say, and the binary search of
  \<^verbatim>\<open>hash_find\<close> returns the content.
\<close>

lemma lawful_pos: "lawful cmp len \<Longrightarrow> (0 < cmp a b (len a)) = (b < a)"
  unfolding lawful_def by (metis linorder_less_linear not_less_iff_gr_or_eq order_less_irrefl)

lemma add_scan_sorted:
  assumes "lawful cmp len" and "sorted_wrt (<) (map fst es)"
  shows "sorted_wrt (<) (map fst (fst (add_scan cmp (len k) k v es))) \<and>
         set (map fst (fst (add_scan cmp (len k) k v es))) = insert k (set (map fst es)) \<and>
         map_of (fst (add_scan cmp (len k) k v es)) = (map_of es)(k \<mapsto> v) \<and>
         snd (add_scan cmp (len k) k v es) = map_of es k"
  using assms(2)
proof (induction es)
  case Nil
  then show ?case by simp
next
  case (Cons e es)
  obtain a w where e: "e = (a, w)" by (cases e)
  have l: "(cmp k a (len k) = 0) = (k = a)" "(cmp k a (len k) < 0) = (k < a)"
    using assms(1) by (auto simp: lawful_def)
  show ?case
  proof (cases "k = a")
    case True
    then show ?thesis using Cons.prems e l by (auto simp: Let_def)
  next
    case False
    show ?thesis
    proof (cases "k < a")
      case True
      then have "\<forall>x \<in> set (map fst es). k < x" using Cons.prems e by auto
      then have "map_of es k = None" by (force simp: map_of_eq_None_iff)
      then show ?thesis using True False Cons.prems e l by (auto simp: Let_def)
    next
      case gt: False
      then have ak: "a < k" using False by simp
      have s: "sorted_wrt (<) (map fst es)" using Cons.prems by simp
      note ih = Cons.IH[OF s]
      obtain es' old where r: "add_scan cmp (len k) k v es = (es', old)"
        by (cases "add_scan cmp (len k) k v es")
      have step: "add_scan cmp (len k) k v (e # es) = (e # es', old)"
        using r l False gt e by (simp add: Let_def)
      have i1: "sorted_wrt (<) (map fst es')" and i2: "set (map fst es') = insert k (set (map fst es))"
        and i3: "map_of es' = (map_of es)(k \<mapsto> v)" and i4: "old = map_of es k"
        using ih unfolding r fst_conv snd_conv by blast+
      have "\<forall>x \<in> set (map fst es'). a < x" using i2 ak Cons.prems e by auto
      then have c1: "sorted_wrt (<) (map fst (e # es'))" using i1 e by simp
      have c2: "set (map fst (e # es')) = insert k (set (map fst (e # es)))" using i2 by auto
      have "map_of (e # es') = ((map_of es)(k \<mapsto> v))(a \<mapsto> w)" using i3 e by simp
      also have "\<dots> = ((map_of es)(a \<mapsto> w))(k \<mapsto> v)" using False by (simp add: fun_upd_twist)
      finally have c3: "map_of (e # es') = (map_of (e # es))(k \<mapsto> v)" using e by simp
      have c4: "old = map_of (e # es) k" using i4 e False by simp
      show ?thesis unfolding step fst_conv snd_conv using c1 c2 c3 c4 by blast
    qed
  qed
qed

lemma find_loop_sorted:
  shows "lawful cmp len \<Longrightarrow> sorted_wrt (<) (map fst es) \<Longrightarrow> upper \<le> length es \<Longrightarrow> \<forall>i<lower. i < length es \<longrightarrow> fst (es ! i) < k \<Longrightarrow>
         \<forall>i. upper \<le> i \<and> i < length es \<longrightarrow> k < fst (es ! i) \<Longrightarrow> keylen = len k \<Longrightarrow>
         (\<exists>i. find_loop cmp keylen k es lower upper = Some i \<and> i < length es \<and> fst (es ! i) = k) \<or>
         (find_loop cmp keylen k es lower upper = None \<and> k \<notin> set (map fst es))"
proof (induction cmp keylen k es lower upper rule: find_loop.induct)
  case (1 cmp keylen k es lower upper)
  have mono: "fst (es ! i) < fst (es ! j)" if "i < j" "j < length es" for i j
  proof -
    have "i < length es" using that by simp
    from sorted_wrt_nth_less[OF "1.prems"(2) that(1)] that this show ?thesis by simp
  qed
  show ?case
  proof (cases "lower < upper")
    case False
    have "k \<noteq> fst (es ! i)" if "i < length es" for i
    proof (cases "i < lower")
      case True
      then show ?thesis using "1.prems"(4) that by fastforce
    next
      case ge: False
      then have "upper \<le> i" using False by simp
      then show ?thesis using "1.prems"(5) that by fastforce
    qed
    then have "k \<notin> set (map fst es)" by (fastforce simp: in_set_conv_nth)
    then show ?thesis using False by (simp add: find_loop.simps[of cmp keylen k es lower upper])
  next
    case True
    define idx where "idx = (lower + upper) div 2"
    define c where "c = cmp k (fst (es ! idx)) keylen"
    have idx: "lower \<le> idx" "idx < upper" "idx < length es"
      using True "1.prems"(3) by (auto simp: idx_def)
    have l: "(c = 0) = (k = fst (es ! idx))" "(c < 0) = (k < fst (es ! idx))" "(0 < c) = (fst (es ! idx) < k)"
      using "1.prems"(1,6) lawful_pos[OF "1.prems"(1)] by (auto simp: lawful_def c_def)
    show ?thesis
    proof (cases "c = 0")
      case z: True
      then have "find_loop cmp keylen k es lower upper = Some idx"
        using True by (simp add: find_loop.simps[of cmp keylen k es lower upper] idx_def c_def Let_def)
      then show ?thesis using idx l z by auto
    next
      case nz: False
      show ?thesis
      proof (cases "0 < c")
        case pos: True
        have e: "find_loop cmp keylen k es lower upper = find_loop cmp keylen k es (idx + 1) upper"
          using True nz pos by (simp add: find_loop.simps[of cmp keylen k es lower upper] idx_def c_def Let_def)
        have lo: "\<forall>i<idx + 1. i < length es \<longrightarrow> fst (es ! i) < k"
        proof (intro allI impI)
          fix i assume "i < idx + 1" "i < length es"
          then consider "i = idx" | "i < idx" by linarith
          then show "fst (es ! i) < k"
          proof cases
            case 1 then show ?thesis using l pos by simp
          next
            case 2 then show ?thesis using mono[of i idx] idx l pos by auto
          qed
        qed
        show ?thesis unfolding e
          using "1.IH"(1)[OF True idx_def c_def nz pos "1.prems"(1,2,3) lo "1.prems"(5,6)] .
      next
        case neg: False
        have e: "find_loop cmp keylen k es lower upper = find_loop cmp keylen k es lower idx"
          using True nz neg by (simp add: find_loop.simps[of cmp keylen k es lower upper] idx_def c_def Let_def)
        have lt: "k < fst (es ! idx)" using l nz neg by auto
        have up: "\<forall>i. idx \<le> i \<and> i < length es \<longrightarrow> k < fst (es ! i)"
        proof (intro allI impI)
          fix i assume a: "idx \<le> i \<and> i < length es"
          then consider "i = idx" | "idx < i" by linarith
          then show "k < fst (es ! i)"
          proof cases
            case 1 then show ?thesis using lt by simp
          next
            case 2 then show ?thesis using mono[of idx i] a lt by auto
          qed
        qed
        have "idx \<le> length es" using idx by simp
        show ?thesis unfolding e
          using "1.IH"(2)[OF True idx_def c_def nz neg "1.prems"(1,2) \<open>idx \<le> length es\<close> "1.prems"(4) up "1.prems"(6)] .
      qed
    qed
  qed
qed

lemma sorted_keys_nth:
  fixes es :: "('k::linorder \<times> 'v) list"
  assumes "sorted_wrt (<) (map fst es)" and "i < length es"
  shows "map_of es (fst (es ! i)) = Some (snd (es ! i))"
proof -
  have "distinct (map fst es)" using assms(1) by (simp only: strict_sorted_iff)
  moreover have "(fst (es ! i), snd (es ! i)) \<in> set es" using assms(2) by simp
  ultimately show ?thesis by (rule map_of_is_SomeI)
qed

lemma find_bucket:
  assumes "lawful cmp len" and "sorted_wrt (<) (map fst es)"
  shows "(case find_loop cmp (len k) k es 0 (length es) of
            Some i \<Rightarrow> i < length es \<and> fst (es ! i) = k \<and> map_of es k = Some (snd (es ! i))
          | None \<Rightarrow> map_of es k = None)"
proof -
  have "(\<exists>i. find_loop cmp (len k) k es 0 (length es) = Some i \<and> i < length es \<and> fst (es ! i) = k) \<or>
         (find_loop cmp (len k) k es 0 (length es) = None \<and> k \<notin> set (map fst es))"
    using assms by (intro find_loop_sorted) auto
  then show ?thesis
  proof
    assume "\<exists>i. find_loop cmp (len k) k es 0 (length es) = Some i \<and> i < length es \<and> fst (es ! i) = k"
    then obtain i where i: "find_loop cmp (len k) k es 0 (length es) = Some i" "i < length es" "fst (es ! i) = k"
      by blast
    then show ?thesis using sorted_keys_nth[OF assms(2) i(2)] by simp
  next
    assume "find_loop cmp (len k) k es 0 (length es) = None \<and> k \<notin> set (map fst es)"
    then show ?thesis by (simp add: map_of_eq_None_iff)
  qed
qed

lemma remove_sorted:
  fixes es :: "('k::linorder \<times> 'v) list"
  assumes "sorted_wrt (<) (map fst es)" and "i < length es"
  shows "sorted_wrt (<) (map fst (take i es @ drop (Suc i) es)) \<and>
         map_of (take i es @ drop (Suc i) es) = (map_of es)(fst (es ! i) := None)"
proof -
  let ?A = "take i es" and ?B = "drop (Suc i) es" and ?e = "es ! i"
  have es: "es = ?A @ ?e # ?B" using assms(2) by (rule id_take_nth_drop)
  have s: "sorted_wrt (<) (map fst (?A @ ?e # ?B))" using assms(1) es by simp
  then have s1: "sorted_wrt (<) (map fst (?A @ ?B))" by (auto simp: sorted_wrt_append)
  have lo: "\<forall>x \<in> set ?A. fst x < fst ?e" and hi: "\<forall>y \<in> set ?B. fst ?e < fst y"
    using s by (auto simp: sorted_wrt_append)
  have nA: "fst ?e \<notin> fst ` set ?A" using lo by auto
  have nB: "fst ?e \<notin> fst ` set ?B" using hi by auto
  have "map_of (?A @ ?B) x = ((map_of (?A @ ?e # ?B))(fst ?e := None)) x" for x
  proof (cases "x = fst ?e")
    case True
    then have "map_of (?A @ ?B) x = None" using nA nB by (auto simp: map_of_eq_None_iff image_Un)
    then show ?thesis using True by simp
  next
    case False
    then show ?thesis by (cases ?e) (simp add: map_add_def split: option.splits)
  qed
  then have "map_of (?A @ ?B) = (map_of (?A @ ?e # ?B))(fst ?e := None)" by (rule ext)
  then show ?thesis using s1 es by simp
qed

lemma add_unique_scan_add_scan:
  "add_unique_scan cmp n k v es =
     (case snd (add_scan cmp n k v es) of None \<Rightarrow> Some (fst (add_scan cmp n k v es)) | Some w \<Rightarrow> None)"
  by (induction es) (auto simp: Let_def case_prod_beta split: option.splits)

lemma bucket_sorted:
  assumes "hash_inv h"
  shows "bucket_of h k < length (buckets h)"
    and "sorted_wrt (<) (map fst (entries (buckets h ! bucket_of h k)))"
proof -
  show 1: "bucket_of h k < length (buckets h)" using assms by (simp add: hash_inv_def bucket_of_def)
  then have "buckets h ! bucket_of h k \<in> set (buckets h)" by simp
  then show "sorted_wrt (<) (map fst (entries (buckets h ! bucket_of h k)))"
    using assms by (simp add: hash_inv_def)
qed

lemma bucket_update:
  assumes "hash_inv h"
    and "n_buckets h' = n_buckets h" and "hash_value h' = hash_value h"
    and "key_compare h' = key_compare h" and "key_length h' = key_length h"
    and "buckets h' = (buckets h)[bucket_of h k := b]"
    and "sorted_wrt (<) (map fst (entries b))"
    and "\<forall>k'. map_of (entries b) k' =
           (if k' = k then x else map_of (entries (buckets h ! bucket_of h k)) k')"
  shows "hash_inv h' \<and> (\<forall>k'. lookup h' k' = (if k' = k then x else lookup h k'))"
proof -
  have pos: "bucket_of h k < length (buckets h)" using bucket_sorted[OF assms(1)] by simp
  have same: "bucket_of h' k' = bucket_of h k'" for k'
    using assms(2,3,5) by (simp add: bucket_of_def)
  have "set (buckets h') \<subseteq> insert b (set (buckets h))"
    unfolding assms(6) by (rule set_update_subset_insert)
  then have inv: "hash_inv h'" using assms(1,2,4,5,6,7) by (auto simp: hash_inv_def)
  have "lookup h' k' = (if k' = k then x else lookup h k')" for k'
  proof (cases "bucket_of h k' = bucket_of h k")
    case True
    then have "lookup h' k' = map_of (entries b) k'"
      using pos by (simp add: lookup_def same assms(6))
    then show ?thesis using assms(8) True by (simp add: lookup_def)
  next
    case False
    then have "k' \<noteq> k" by auto
    moreover have "lookup h' k' = lookup h k'"
      using False by (simp add: lookup_def same assms(6))
    ultimately show ?thesis by simp
  qed
  then show ?thesis using inv by simp
qed

lemma hash_find_lookup:
  assumes "hash_inv h"
  shows "hash_find h k = lookup h k"
proof -
  let ?es = "entries (buckets h ! bucket_of h k)"
  let ?f = "find_loop (key_compare h) (key_length h k) k ?es 0 (length ?es)"
  have law: "lawful (key_compare h) (key_length h)" using assms by (simp add: hash_inv_def)
  have e: "hash_find h k = (case ?f of Some idx \<Rightarrow> Some (snd (?es ! idx)) | None \<Rightarrow> None)"
    by (simp add: hash_find_def hash_find_entry_def bucket_of_def Let_def cong: option.case_cong)
  note fb = find_bucket[OF law bucket_sorted(2)[OF assms, of k], of k]
  show ?thesis
  proof (cases ?f)
    case None
    then show ?thesis using fb e by (simp add: lookup_def)
  next
    case (Some idx)
    then show ?thesis using fb e by (simp add: lookup_def)
  qed
qed

lemma hash_add_lookup:
  assumes "hash_inv h" and "hash_add realloc_ok h k v = (rc, h')"
  shows "hash_inv h' \<and>
         (if rc = 0 then \<forall>k'. lookup h' k' = (if k' = k then Some v else lookup h k') else h' = h)"
proof -
  let ?pos = "bucket_of h k"
  let ?es = "entries (buckets h ! ?pos)"
  let ?r = "add_scan (key_compare h) (key_length h k) k v ?es"
  have law: "lawful (key_compare h) (key_length h)" using assms(1) by (simp add: hash_inv_def)
  note sc = add_scan_sorted[OF law bucket_sorted(2)[OF assms(1), of k], of k v]
  show ?thesis
  proof (cases "rc = 0")
    case False
    then have "h' = h" using assms(2)
      by (auto simp: hash_add_def Let_def case_prod_beta split: if_splits option.splits)
    then show ?thesis using assms(1) False by simp
  next
    case True
    have "\<exists>b. n_buckets h' = n_buckets h \<and> hash_value h' = hash_value h \<and>
        key_compare h' = key_compare h \<and> key_length h' = key_length h \<and>
        buckets h' = (buckets h)[?pos := b] \<and> entries b = fst ?r"
      using assms(2) True
      by (auto simp: hash_add_def bucket_of_def Let_def case_prod_beta split: if_splits option.splits)
    then obtain b where b: "n_buckets h' = n_buckets h" "hash_value h' = hash_value h"
        "key_compare h' = key_compare h" "key_length h' = key_length h"
        "buckets h' = (buckets h)[?pos := b]" "entries b = fst ?r" by blast
    have "sorted_wrt (<) (map fst (entries b))" using sc b(6) by simp
    moreover have "\<forall>k'. map_of (entries b) k' = (if k' = k then Some v else map_of ?es k')"
      using sc b(6) by simp
    ultimately show ?thesis using bucket_update[OF assms(1) b(1-5)] True by simp
  qed
qed

lemma hash_add_unique_lookup:
  assumes "hash_inv h" and "hash_add_unique realloc_ok h k v = (rc, h')"
  shows "hash_inv h' \<and>
         (if rc = 0
          then lookup h k = None \<and> (\<forall>k'. lookup h' k' = (if k' = k then Some v else lookup h k'))
          else (\<forall>k'. lookup h' k' = lookup h k') \<and> (rc = - EEXIST \<longrightarrow> lookup h k \<noteq> None))"
proof -
  let ?pos = "bucket_of h k"
  let ?es = "entries (buckets h ! ?pos)"
  let ?r = "add_scan (key_compare h) (key_length h k) k v ?es"
  have law: "lawful (key_compare h) (key_length h)" using assms(1) by (simp add: hash_inv_def)
  note so = bucket_sorted(2)[OF assms(1), of k]
  note sc = add_scan_sorted[OF law so, of k v]
  have old: "snd ?r = lookup h k" using sc by (simp add: lookup_def)
  have u: "add_unique_scan (key_compare h) (key_length h k) k v ?es =
      (case lookup h k of None \<Rightarrow> Some (fst ?r) | Some w \<Rightarrow> None)"
    by (simp add: add_unique_scan_add_scan old)
  define grow where "grow = (length ?es + 1 \<ge> total (buckets h ! ?pos))"
  define bucket1 where "bucket1 =
    (if grow then (buckets h ! ?pos)\<lparr>total := total (buckets h ! ?pos) + step h\<rparr> else buckets h ! ?pos)"
  have e1: "entries bucket1 = ?es" by (simp add: bucket1_def)
  have eq: "hash_add_unique realloc_ok h k v =
      (if grow \<and> \<not> realloc_ok then (- ENOMEM, h)
       else case lookup h k of
              Some w \<Rightarrow> (- EEXIST, h\<lparr>buckets := (buckets h)[?pos := bucket1]\<rparr>)
            | None \<Rightarrow> (0, h\<lparr>buckets := (buckets h)[?pos := bucket1\<lparr>entries := fst ?r\<rparr>],
                           count := count h + 1\<rparr>))"
    unfolding hash_add_unique_def Let_def bucket_of_def[symmetric] grow_def[symmetric]
      bucket1_def[symmetric] e1 u
    by (simp split: option.splits)
  consider (nomem) "rc = - ENOMEM" "h' = h"
    | (exist) b where "rc = - EEXIST" "lookup h k \<noteq> None" "n_buckets h' = n_buckets h"
        "hash_value h' = hash_value h" "key_compare h' = key_compare h" "key_length h' = key_length h"
        "buckets h' = (buckets h)[?pos := b]" "entries b = ?es"
    | (added) b where "rc = 0" "lookup h k = None" "n_buckets h' = n_buckets h"
        "hash_value h' = hash_value h" "key_compare h' = key_compare h" "key_length h' = key_length h"
        "buckets h' = (buckets h)[?pos := b]" "entries b = fst ?r"
  proof (cases "grow \<and> \<not> realloc_ok")
    case True
    then have "rc = - ENOMEM" "h' = h" using assms(2) eq by simp_all
    then show ?thesis by (rule nomem)
  next
    case False
    show ?thesis
    proof (cases "lookup h k")
      case None
      then have "rc = 0" "h' = h\<lparr>buckets := (buckets h)[?pos := bucket1\<lparr>entries := fst ?r\<rparr>],
                           count := count h + 1\<rparr>"
        using assms(2) eq False by simp_all
      then show ?thesis using None by (intro added[of "bucket1\<lparr>entries := fst ?r\<rparr>"]) simp_all
    next
      case (Some w)
      then have "rc = - EEXIST" "h' = h\<lparr>buckets := (buckets h)[?pos := bucket1]\<rparr>"
        using assms(2) eq False by simp_all
      then show ?thesis using Some e1 by (intro exist[of bucket1]) simp_all
    qed
  qed
  then show ?thesis
  proof cases
    case nomem
    then show ?thesis using assms(1) by simp
  next
    case exist
    have "sorted_wrt (<) (map fst (entries b))" using so exist(8) by simp
    moreover have "\<forall>k'. map_of (entries b) k' = (if k' = k then lookup h k else map_of ?es k')"
      using exist(8) by (simp add: lookup_def)
    ultimately have "hash_inv h' \<and> (\<forall>k'. lookup h' k' = (if k' = k then lookup h k else lookup h k'))"
      by (rule bucket_update[OF assms(1) exist(3-7)])
    then show ?thesis using exist(1,2) by simp
  next
    case added
    have "sorted_wrt (<) (map fst (entries b))" using sc added(8) by simp
    moreover have "\<forall>k'. map_of (entries b) k' = (if k' = k then Some v else map_of ?es k')"
      using sc added(8) by simp
    ultimately have "hash_inv h' \<and> (\<forall>k'. lookup h' k' = (if k' = k then Some v else lookup h k'))"
      by (rule bucket_update[OF assms(1) added(3-7)])
    then show ?thesis using added(1,2) by simp
  qed
qed

lemma hash_del_lookup:
  assumes "hash_inv h" and "hash_del realloc_ok h k = (rc, h')"
  shows "hash_inv h' \<and>
         (if rc = 0
          then lookup h k \<noteq> None \<and> (\<forall>k'. lookup h' k' = (if k' = k then None else lookup h k'))
          else lookup h k = None \<and> h' = h)"
proof -
  let ?pos = "bucket_of h k"
  let ?es = "entries (buckets h ! ?pos)"
  let ?f = "find_loop (key_compare h) (key_length h k) k ?es 0 (length ?es)"
  have law: "lawful (key_compare h) (key_length h)" using assms(1) by (simp add: hash_inv_def)
  note so = bucket_sorted(2)[OF assms(1), of k]
  note fb = find_bucket[OF law so, of k]
  have fe: "hash_find_entry h k (hash_value h k (key_length h k)) (key_length h k) = ?f"
    by (simp add: hash_find_entry_def bucket_of_def Let_def)
  show ?thesis
  proof (cases ?f)
    case None
    then have "rc = - ENOENT" "h' = h" using assms(2) fe
      by (simp_all add: hash_del_def bucket_of_def Let_def)
    moreover have "lookup h k = None" using fb None by (simp add: lookup_def)
    ultimately show ?thesis using assms(1) by simp
  next
    case (Some idx)
    then have i: "idx < length ?es" "fst (?es ! idx) = k" "lookup h k = Some (snd (?es ! idx))"
      using fb by (simp_all add: lookup_def)
    have "\<exists>b. rc = 0 \<and> n_buckets h' = n_buckets h \<and> hash_value h' = hash_value h \<and>
        key_compare h' = key_compare h \<and> key_length h' = key_length h \<and>
        buckets h' = (buckets h)[?pos := b] \<and> entries b = take idx ?es @ drop (Suc idx) ?es"
      using assms(2) fe Some
      by (auto simp: hash_del_def bucket_of_def Let_def)
    then obtain b where b: "rc = 0" "n_buckets h' = n_buckets h" "hash_value h' = hash_value h"
        "key_compare h' = key_compare h" "key_length h' = key_length h"
        "buckets h' = (buckets h)[?pos := b]" "entries b = take idx ?es @ drop (Suc idx) ?es" by blast
    note rs = remove_sorted[OF so i(1)]
    have "sorted_wrt (<) (map fst (entries b))" using rs b(7) by simp
    moreover have "\<forall>k'. map_of (entries b) k' = (if k' = k then None else map_of ?es k')"
      using rs b(7) i(2) by simp
    ultimately have "hash_inv h' \<and> (\<forall>k'. lookup h' k' = (if k' = k then None else lookup h k'))"
      by (rule bucket_update[OF assms(1) b(2-6)])
    then show ?thesis using b(1) i(3) by simp
  qed
qed

lemma hash_run_inv:
  "hash_inv h \<Longrightarrow>
   hash_inv (hash_run h ops) \<and> (\<forall>k. hash_find (hash_run h ops) k = lookup (hash_run h ops) k)"
proof (induction h ops rule: hash_run.induct)
  case (1 h)
  then show ?case by (simp add: hash_find_lookup)
next
  case (2 h ok k v ops)
  then show ?case using hash_add_lookup[of h ok k v] by (cases "hash_add ok h k v") simp
next
  case (3 h ok k v ops)
  then show ?case using hash_add_unique_lookup[of h ok k v] by (cases "hash_add_unique ok h k v") simp
next
  case (4 h ok k ops)
  then show ?case using hash_del_lookup[of h ok k] by (cases "hash_del ok h k") simp
qed

lemma hash_internal_new_inv:
  "lawful cmp len \<Longrightarrow> 0 < n \<Longrightarrow> hash_internal_new True n hv cmp len fk fv = Some h \<Longrightarrow> hash_inv h"
  by (auto simp: hash_internal_new_def hash_inv_def)

lemma strncmp_prefix_keys:
  "strncmp ''ab'' ''abc'' (length ''ab'') = 0"
  "strncmp ''abc'' ''ab'' (length ''abc'') = 99"
  "strncmp ''a'' ''abc'' (length ''a'') = 0"
  by code_simp+

lemma find_loop_prefix_keys:
  "find_loop strncmp (length ''ab'') ''ab'' [(''ab'', 1::nat), (''abc'', 2)] 0
     (length [(''ab'', 1::nat), (''abc'', 2)]) = Some 1"
  "find_loop strncmp (length ''a'') ''a'' [(''ab'', 1::nat), (''abc'', 2)] 0
     (length [(''ab'', 1::nat), (''abc'', 2)]) = Some 1"
  by code_simp+

text \<open>
  C10: the code breaks the claim. The string table compares keys with \<^verbatim>\<open>strncmp\<close> over
  the length of the key that is looked up, so a key compares equal to every stored key
  it is a prefix of. In a string table with one bucket, after \<^verbatim>\<open>hash_add\<close> of
  \<^verbatim>\<open>"ab"\<close> with value 1 and of \<^verbatim>\<open>"abc"\<close> with value 2, the bucket holds two entries
  that compare equal under the table's comparator, \<^verbatim>\<open>hash_find\<close> of the present key
  \<^verbatim>\<open>"ab"\<close> returns 2, the value stored for \<^verbatim>\<open>"abc"\<close>, and \<^verbatim>\<open>hash_find\<close> of the absent
  key \<^verbatim>\<open>"a"\<close> returns 2 and not \<^verbatim>\<open>NULL\<close>.
\<close>

theorem hash_find_prefix_key:
  "(case hash_str_new True 1 False False of
      Some h \<Rightarrow>
        (let (r1, h1) = hash_add True h ''ab'' (1::nat);
             (r2, h2) = hash_add True h1 ''abc'' 2
         in r1 = 0 \<and> r2 = 0 \<and>
            map entries (buckets h2) = [[(''ab'', 1), (''abc'', 2)]] \<and>
            key_compare h2 ''ab'' ''abc'' (key_length h2 ''ab'') = 0 \<and>
            hash_find h2 ''ab'' = Some 2 \<and>
            hash_find h2 ''a'' = Some 2)
    | None \<Rightarrow> False)"
  using strncmp_prefix_keys find_loop_prefix_keys
  by (simp add: hash_str_new_def hash_internal_new_def hash_add_def hash_find_def
      hash_find_entry_def Let_def del: strncmp.simps)

section \<open>Resetting a connection\<close>

text \<open>
  C4, as stated, fails: after the reset the base of the query-string array is the
  address of the static sentinel, not the zero value \<^verbatim>\<open>NULL\<close> that the memset left.
  The input is the all-zero slot the slab starts with.
\<close>

theorem reset_request_kv_base_not_zero:
  "query_string_kv_base
     (fst (reset_request
        \<lparr>fd = 0, lwan = None, coro = None, response_buffer = None,
         query_string_kv_base = Kv_null, alive = False, should_resume_coro = False,
         write_events = False, is_keep_alive = False, time_to_die = 0,
         other_members = []\<rparr>
        \<lparr>strbufs = Map.empty, coros = Map.empty, next_addr = 0, calls = []\<rparr>))
   \<noteq> query_string_kv_base
     (memset_zero
        \<lparr>fd = 0, lwan = None, coro = None, response_buffer = None,
         query_string_kv_base = Kv_null, alive = False, should_resume_coro = False,
         write_events = False, is_keep_alive = False, time_to_die = 0,
         other_members = []\<rparr>)"
  by (simp add: reset_request_def memset_zero_def)

text \<open>
  C4, amended: \<^verbatim>\<open>_reset_request\<close> keeps \<open>fd\<close>, \<open>lwan\<close>, \<open>coro\<close> and the address of the
  response buffer; the query-string base becomes the shared sentinel; every other member
  has its zero value; the response buffer is the same object with length 0, and no
  buffer is allocated or released.
\<close>

theorem reset_request_frame:
  assumes "response_buffer request = Some b" and "strbufs h b = Some s"
  shows "(let (request', h') = reset_request request h in
            fd request' = fd request \<and> lwan request' = lwan request \<and>
            coro request' = coro request \<and>
            response_buffer request' = response_buffer request \<and>
            query_string_kv_base request' = Kv_empty_sentinel \<and>
            request'\<lparr>fd := 0, lwan := None, coro := None, response_buffer := None,
                      query_string_kv_base := Kv_null\<rparr> = memset_zero request \<and>
            strbuf_length h' (response_buffer request') = Some 0 \<and>
            dom (strbufs h') = dom (strbufs h) \<and> next_addr h' = next_addr h \<and>
            coros h' = coros h)"
  using assms
  by (auto simp: reset_request_def memset_zero_def strbuf_reset_def strbuf_length_def
      log_call_def Let_def)

theorem reset_request_frame_witness:
  "(let (request', h') =
      reset_request
        \<lparr>fd = 7, lwan = Some 1, coro = Some 3, response_buffer = Some 20,
         query_string_kv_base = Kv_heap 40, alive = True, should_resume_coro = True,
         write_events = True, is_keep_alive = True, time_to_die = 9,
         other_members = [1, 2]\<rparr>
        \<lparr>strbufs = [20 \<mapsto> ''old''], coros = [3 \<mapsto> True], next_addr = 50, calls = []\<rparr>
    in request' =
        \<lparr>fd = 7, lwan = Some 1, coro = Some 3, response_buffer = Some 20,
         query_string_kv_base = Kv_empty_sentinel, alive = False,
         should_resume_coro = False, write_events = False, is_keep_alive = False,
         time_to_die = 0, other_members = [0, 0]\<rparr> \<and>
       strbuf_length h' (Some 20) = Some 0 \<and>
       calls h' = [Free (Kv_heap 40), Strbuf_reset (Some 20)])"
  using reset_request_frame
    [of "\<lparr>fd = 7, lwan = Some 1, coro = Some 3, response_buffer = Some 20,
         query_string_kv_base = Kv_heap 40, alive = True, should_resume_coro = True,
         write_events = True, is_keep_alive = True, time_to_die = 9,
         other_members = [1, 2]\<rparr>" 20
        "\<lparr>strbufs = [20 \<mapsto> ''old''], coros = [3 \<mapsto> True], next_addr = 50, calls = []\<rparr>"
        "''old''"]
  by (simp add: reset_request_def memset_zero_def strbuf_reset_def strbuf_length_def
      log_call_def Let_def)

end
